theory Spec2Isabelle
  imports Complex_Main "HOL-Library.Word"
begin

unbundle bit_operations_syntax

section \<open>Data model\<close>

text \<open>
  Machine integers keep their width: \<open>size_t\<close> and \<open>uint64_t\<close> are \<open>64 word\<close>
  (the shift by 32 in \<open>next_power_of_two\<close> fixes a 64-bit \<open>size_t\<close>), \<open>uint32_t\<close> is
  \<open>32 word\<close>, a byte is \<open>8 word\<close>.

  The C type \<open>float\<close> is a type parameter \<open>'f\<close> of the sample records. Where the code
  computes with it, it is \<open>fpval\<close> (below); where the code only copies it into the wire
  record, it is the 32-bit pattern of the IEEE-754 value.
\<close>

type_synonym size_t = "64 word"
type_synonym uint64_t = "64 word"
type_synonym uint32_t = "32 word"
type_synonym byte = "8 word"

text \<open>
  \<open>pmu_reading_t\<close> (pmu.h) and \<open>ipc_sample_wire_t\<close> (ipc_socket.h). Their fields bear the
  names of the fields of \<open>telemetry_sample_t\<close>; they are declared first, and are written
  with the record's name in front (\<open>pmu_reading.cycles\<close>).
\<close>

record pmu_reading =
  cache_references :: uint64_t
  cache_misses :: uint64_t
  branch_instructions :: uint64_t
  branch_misses :: uint64_t
  instructions :: uint64_t
  cycles :: uint64_t

record 'f ipc_sample_wire =
  timestamp_ns :: uint64_t
  cache_references :: uint64_t
  cache_misses :: uint64_t
  branch_instructions :: uint64_t
  branch_misses :: uint64_t
  cycles :: uint64_t
  instructions :: uint64_t
  cache_miss_rate :: 'f
  branch_miss_rate :: 'f
  ipc :: 'f

text \<open>\<open>telemetry_sample_t\<close> (telemetry.h).\<close>

record 'f telemetry_sample =
  timestamp_ns :: uint64_t
  cache_references :: uint64_t
  cache_misses :: uint64_t
  branch_instructions :: uint64_t
  branch_misses :: uint64_t
  cycles :: uint64_t
  instructions :: uint64_t
  cache_miss_rate :: 'f
  branch_miss_rate :: 'f
  ipc :: 'f

text \<open>The all-zero sample that \<open>calloc\<close> and \<open>memset\<close> produce.\<close>

definition zero_sample :: "'f::zero telemetry_sample" where
  "zero_sample = \<lparr> timestamp_ns = 0, cache_references = 0, cache_misses = 0,
     branch_instructions = 0, branch_misses = 0, cycles = 0, instructions = 0,
     cache_miss_rate = 0, branch_miss_rate = 0, ipc = 0 \<rparr>"

section \<open>SPSC ring buffer (ringbuffer.c)\<close>

text \<open>
  \<open>ringbuffer_t\<close>: the heap block \<open>buffer\<close> is the list of its slots, \<open>head\<close> and
  \<open>tail\<close> are the two indices. The model is the sequential one: each operation runs to
  its end before the next starts.
\<close>

record 'f ringbuffer =
  buffer :: "'f telemetry_sample list"
  capacity :: size_t
  head :: size_t
  tail :: size_t

definition next_power_of_two :: "size_t \<Rightarrow> size_t" where
  "next_power_of_two v0 =
     (let v = v0 - 1;
          v = v OR drop_bit 1 v;
          v = v OR drop_bit 2 v;
          v = v OR drop_bit 4 v;
          v = v OR drop_bit 8 v;
          v = v OR drop_bit 16 v;
          v = v OR drop_bit 32 v
      in v + 1)"

text \<open>
  \<open>ringbuffer_init\<close>. Whether \<open>calloc\<close> returns a block is the environment's choice
  (\<open>calloc_ok\<close>); \<open>None\<close> is the return value \<open>-1\<close>.
\<close>

definition ringbuffer_init :: "bool \<Rightarrow> size_t \<Rightarrow> ('f::zero) ringbuffer option" where
  "ringbuffer_init calloc_ok requested =
     (if requested = 0 then None
      else let cap = next_power_of_two requested in
        if \<not> calloc_ok then None
        else Some \<lparr> buffer = replicate (unat cap) zero_sample,
                    capacity = cap, head = 0, tail = 0 \<rparr>)"

text \<open>
  \<open>ringbuffer_push\<close> and \<open>ringbuffer_pop\<close>. A slot index outside the allocated block is
  undefined behaviour in C; the model returns \<open>None\<close> there. Otherwise the result is the
  returned \<open>bool\<close> (for pop: the sample written to \<open>*out\<close>, if any) and the buffer after
  the call.
\<close>

definition ringbuffer_push ::
  "'f ringbuffer \<Rightarrow> 'f telemetry_sample \<Rightarrow> (bool \<times> 'f ringbuffer) option" where
  "ringbuffer_push rb sample =
     (let next = (head rb + 1) AND (capacity rb - 1) in
      if next = tail rb then Some (False, rb)
      else if unat (head rb) < length (buffer rb)
      then Some (True, rb\<lparr> buffer := (buffer rb)[unat (head rb) := sample], head := next \<rparr>)
      else None)"

definition ringbuffer_pop ::
  "'f ringbuffer \<Rightarrow> ('f telemetry_sample option \<times> 'f ringbuffer) option" where
  "ringbuffer_pop rb =
     (if tail rb = head rb then Some (None, rb)
      else if unat (tail rb) < length (buffer rb)
      then Some (Some (buffer rb ! unat (tail rb)),
                 rb\<lparr> tail := (tail rb + 1) AND (capacity rb - 1) \<rparr>)
      else None)"

definition ringbuffer_count :: "'f ringbuffer \<Rightarrow> size_t" where
  "ringbuffer_count rb = (head rb - tail rb) AND (capacity rb - 1)"

definition ringbuffer_empty :: "'f ringbuffer \<Rightarrow> bool" where
  "ringbuffer_empty rb = (ringbuffer_count rb = 0)"

text \<open>The samples a buffer holds, oldest first, and the invariant of a usable buffer.\<close>

definition rb_contents :: "'f ringbuffer \<Rightarrow> 'f telemetry_sample list" where
  "rb_contents rb =
     map (\<lambda>i. buffer rb ! ((unat (tail rb) + i) mod unat (capacity rb)))
         [0 ..< unat (ringbuffer_count rb)]"

definition rb_inv :: "'f ringbuffer \<Rightarrow> bool" where
  "rb_inv rb \<longleftrightarrow>
     (\<exists>k < 64. capacity rb = 2 ^ k) \<and> length (buffer rb) = unat (capacity rb) \<and>
     head rb < capacity rb \<and> tail rb < capacity rb"
text \<open>
  A run of the buffer: the calls the producer and the consumer make, in order, with what each
  returns.
\<close>

datatype 'f rb_call = Push "'f telemetry_sample" | Pop

datatype 'f rb_ret = Pushed bool | Popped "'f telemetry_sample option"

fun rb_run :: "'f ringbuffer \<Rightarrow> 'f rb_call list \<Rightarrow> ('f rb_ret list \<times> 'f ringbuffer) option" where
  "rb_run rb [] = Some ([], rb)"
| "rb_run rb (Push s # cs) =
     (case ringbuffer_push rb s of
        None \<Rightarrow> None
      | Some (ok, rb') \<Rightarrow>
          (case rb_run rb' cs of
             None \<Rightarrow> None
           | Some (rs, rb'') \<Rightarrow> Some (Pushed ok # rs, rb'')))"
| "rb_run rb (Pop # cs) =
     (case ringbuffer_pop rb of
        None \<Rightarrow> None
      | Some (out, rb') \<Rightarrow>
          (case rb_run rb' cs of
             None \<Rightarrow> None
           | Some (rs, rb'') \<Rightarrow> Some (Popped out # rs, rb'')))"

text \<open>
  The reference the runs are compared with: a first-in first-out queue, as a list, that
  accepts a sample only while it holds fewer than \<open>m\<close>.
\<close>

fun fifo_run :: "nat \<Rightarrow> 'f telemetry_sample list \<Rightarrow> 'f rb_call list \<Rightarrow>
    'f rb_ret list \<times> 'f telemetry_sample list" where
  "fifo_run m q [] = ([], q)"
| "fifo_run m q (Push s # cs) =
     (if length q < m
      then (case fifo_run m (q @ [s]) cs of (rs, q') \<Rightarrow> (Pushed True # rs, q'))
      else (case fifo_run m q cs of (rs, q') \<Rightarrow> (Pushed False # rs, q')))"
| "fifo_run m q (Pop # cs) =
     (case q of
        [] \<Rightarrow> (case fifo_run m [] cs of (rs, q') \<Rightarrow> (Popped None # rs, q'))
      | x # q0 \<Rightarrow> (case fifo_run m q0 cs of (rs, q') \<Rightarrow> (Popped (Some x) # rs, q')))"

text \<open>\<open>ringbuffer_init\<close> (with a successful \<open>calloc\<close>) followed by a run.\<close>

definition init_and_run :: "size_t \<Rightarrow> ('f::zero) rb_call list \<Rightarrow> 'f rb_ret list option" where
  "init_and_run requested cs =
     (case ringbuffer_init True requested of
        None \<Rightarrow> None
      | Some rb \<Rightarrow> map_option fst (rb_run rb cs))"

text \<open>The bit-smearing middle of \<open>next_power_of_two\<close>, named for the proofs.\<close>

definition smear :: "size_t \<Rightarrow> size_t" where
  "smear x = (let v = x;
          v = v OR drop_bit 1 v;
          v = v OR drop_bit 2 v;
          v = v OR drop_bit 4 v;
          v = v OR drop_bit 8 v;
          v = v OR drop_bit 16 v;
          v = v OR drop_bit 32 v in v)"

section \<open>Floating-point values\<close>

text \<open>
  A C \<open>float\<close> or \<open>double\<close> is either a finite value, read as the real number it
  denotes, an infinity, or NaN. The operations of this section are exact on finite values:
  rounding, overflow, underflow and the sign of zero are not modelled in them. On the
  infinities, on NaN and at a zero divisor they follow IEEE-754 (\<open>x / 0\<close> is an infinity, or
  NaN for \<open>0 / 0\<close>; every comparison with NaN is false). A conversion between \<open>float\<close> and
  \<open>double\<close> is the identity in this reading. The operations of \<open>double\<close> with their
  rounding follow in the next section.
\<close>

datatype fpval = Finite real | PlusInf | MinusInf | NaN

instantiation fpval :: zero
begin
definition zero_fpval :: fpval where "zero_fpval = Finite 0"
instance ..
end

fun fp_neg :: "fpval \<Rightarrow> fpval" where
  "fp_neg (Finite x) = Finite (- x)"
| "fp_neg PlusInf = MinusInf"
| "fp_neg MinusInf = PlusInf"
| "fp_neg NaN = NaN"

text \<open>\<open>fabs\<close>.\<close>

fun fp_abs :: "fpval \<Rightarrow> fpval" where
  "fp_abs (Finite x) = Finite \<bar>x\<bar>"
| "fp_abs PlusInf = PlusInf"
| "fp_abs MinusInf = PlusInf"
| "fp_abs NaN = NaN"

fun fp_add :: "fpval \<Rightarrow> fpval \<Rightarrow> fpval" where
  "fp_add (Finite x) (Finite y) = Finite (x + y)"
| "fp_add NaN _ = NaN"
| "fp_add _ NaN = NaN"
| "fp_add PlusInf MinusInf = NaN"
| "fp_add MinusInf PlusInf = NaN"
| "fp_add PlusInf _ = PlusInf"
| "fp_add _ PlusInf = PlusInf"
| "fp_add MinusInf _ = MinusInf"
| "fp_add _ MinusInf = MinusInf"

definition fp_sub :: "fpval \<Rightarrow> fpval \<Rightarrow> fpval" where
  "fp_sub a b = fp_add a (fp_neg b)"

fun fp_mul :: "fpval \<Rightarrow> fpval \<Rightarrow> fpval" where
  "fp_mul (Finite x) (Finite y) = Finite (x * y)"
| "fp_mul NaN _ = NaN"
| "fp_mul _ NaN = NaN"
| "fp_mul PlusInf (Finite y) = (if y = 0 then NaN else if 0 < y then PlusInf else MinusInf)"
| "fp_mul MinusInf (Finite y) = (if y = 0 then NaN else if 0 < y then MinusInf else PlusInf)"
| "fp_mul (Finite x) PlusInf = (if x = 0 then NaN else if 0 < x then PlusInf else MinusInf)"
| "fp_mul (Finite x) MinusInf = (if x = 0 then NaN else if 0 < x then MinusInf else PlusInf)"
| "fp_mul PlusInf PlusInf = PlusInf"
| "fp_mul MinusInf MinusInf = PlusInf"
| "fp_mul PlusInf MinusInf = MinusInf"
| "fp_mul MinusInf PlusInf = MinusInf"

fun fp_div :: "fpval \<Rightarrow> fpval \<Rightarrow> fpval" where
  "fp_div (Finite x) (Finite y) =
     (if y = 0 then (if x = 0 then NaN else if 0 < x then PlusInf else MinusInf)
      else Finite (x / y))"
| "fp_div NaN _ = NaN"
| "fp_div _ NaN = NaN"
| "fp_div (Finite x) PlusInf = Finite 0"
| "fp_div (Finite x) MinusInf = Finite 0"
| "fp_div PlusInf (Finite y) = (if y < 0 then MinusInf else PlusInf)"
| "fp_div MinusInf (Finite y) = (if y < 0 then PlusInf else MinusInf)"
| "fp_div _ _ = NaN"

fun fp_sqrt :: "fpval \<Rightarrow> fpval" where
  "fp_sqrt (Finite x) = (if x < 0 then NaN else Finite (sqrt x))"
| "fp_sqrt PlusInf = PlusInf"
| "fp_sqrt MinusInf = NaN"
| "fp_sqrt NaN = NaN"

text \<open>The comparison \<open>a < b\<close> of C; \<open>a > b\<close> is \<open>fp_lt b a\<close>.\<close>

fun fp_lt :: "fpval \<Rightarrow> fpval \<Rightarrow> bool" where
  "fp_lt (Finite x) (Finite y) = (x < y)"
| "fp_lt NaN _ = False"
| "fp_lt _ NaN = False"
| "fp_lt MinusInf MinusInf = False"
| "fp_lt MinusInf _ = True"
| "fp_lt _ MinusInf = False"
| "fp_lt PlusInf _ = False"
| "fp_lt _ PlusInf = True"

text \<open>\<open>a <= b\<close>, used to state bounds.\<close>

definition fp_le :: "fpval \<Rightarrow> fpval \<Rightarrow> bool" where
  "fp_le a b \<longleftrightarrow> fp_lt a b \<or> (a = b \<and> a \<noteq> NaN)"

text \<open>The conversion of an unsigned 64-bit integer to \<open>float\<close> or \<open>double\<close>.\<close>

definition fp_of_u64 :: "uint64_t \<Rightarrow> fpval" where
  "fp_of_u64 w = Finite (real (unat w))"

section \<open>Rounded double arithmetic\<close>

text \<open>
  Rounding to the nearest integer, a tie going to the even one.
\<close>

definition round_half_even :: "real \<Rightarrow> int" where
  "round_half_even q =
     (let f = \<lfloor>q\<rfloor>; d = q - of_int f in
      if d < 1 / 2 then f else if 1 / 2 < d then f + 1 else if even f then f else f + 1)"

text \<open>
  IEEE-754 binary64, the \<open>double\<close> of the target, in its default rounding mode. A nonzero
  real \<open>x\<close> lies in the binade whose exponent is the integer part of the binary logarithm of
  \<open>|x|\<close>, not below \<open>-1022\<close> (the subnormal
  numbers share the spacing of the smallest normal binade); the doubles of a binade are the
  multiples of its unit in the last place, 52 binary digits below the exponent;
  \<open>binary64_nearest x\<close> is the multiple nearest to \<open>x\<close>, a tie going to the even multiple. A
  result of magnitude \<open>2 ^ 1024\<close> or more is an infinity. The sign of zero is not modelled.
\<close>

definition binary64_exponent :: "real \<Rightarrow> int" where
  "binary64_exponent x = max \<lfloor>log 2 \<bar>x\<bar>\<rfloor> (- 1022)"

definition binary64_ulp :: "real \<Rightarrow> real" where
  "binary64_ulp x = 2 powr of_int (binary64_exponent x - 52)"

definition binary64_nearest :: "real \<Rightarrow> real" where
  "binary64_nearest x =
     (if x = 0 then 0 else of_int (round_half_even (x / binary64_ulp x)) * binary64_ulp x)"

definition round64 :: "real \<Rightarrow> fpval" where
  "round64 x =
     (let y = binary64_nearest x in
      if 2 ^ 1024 \<le> y then PlusInf else if y \<le> - (2 ^ 1024) then MinusInf else Finite y)"

fun fp_round :: "fpval \<Rightarrow> fpval" where
  "fp_round (Finite x) = round64 x"
| "fp_round v = v"

text \<open>
  \<open>a + b\<close>, \<open>a - b\<close> and \<open>a / b\<close> on \<open>double\<close>: the exact result, rounded.
\<close>

definition double_add :: "fpval \<Rightarrow> fpval \<Rightarrow> fpval" where
  "double_add a b = fp_round (fp_add a b)"

definition double_sub :: "fpval \<Rightarrow> fpval \<Rightarrow> fpval" where
  "double_sub a b = fp_round (fp_sub a b)"

definition double_div :: "fpval \<Rightarrow> fpval \<Rightarrow> fpval" where
  "double_div a b = fp_round (fp_div a b)"

text \<open>
  \<open>DBL_EPSILON\<close> of \<open>float.h\<close>, the distance from 1 to the next double, and half of it,
  the unit roundoff.
\<close>

definition DBL_EPSILON :: real where
  "DBL_EPSILON = 1 / 2 ^ 52"

definition unit_roundoff :: real where
  "unit_roundoff = 1 / 2 ^ 53"

section \<open>Anomaly engine (anomaly.h, anomaly.c)\<close>

text \<open>The flag bits of \<open>anomaly_flags_t\<close>.\<close>

definition ANOMALY_CACHE_MISS_SPIKE :: uint32_t where "ANOMALY_CACHE_MISS_SPIKE = 1"
definition ANOMALY_BRANCH_MISS_SPIKE :: uint32_t where "ANOMALY_BRANCH_MISS_SPIKE = 2"
definition ANOMALY_IPC_COLLAPSE :: uint32_t where "ANOMALY_IPC_COLLAPSE = 4"
definition ANOMALY_BURST_PATTERN :: uint32_t where "ANOMALY_BURST_PATTERN = 8"
definition ANOMALY_OSCILLATION :: uint32_t where "ANOMALY_OSCILLATION = 16"

record baseline_profile =
  mean_cache_miss_rate :: fpval
  std_cache_miss_rate :: fpval
  mean_branch_miss_rate :: fpval
  std_branch_miss_rate :: fpval
  mean_ipc :: fpval
  std_ipc :: fpval
  sample_count :: size_t
  ready :: bool

record anomaly_result =
  z_cache_miss :: fpval
  z_branch_miss :: fpval
  z_ipc :: fpval
  composite_score :: fpval
  anomaly_flags :: uint32_t
  sustained_count :: uint32_t

text \<open>
  \<open>anomaly_engine_t\<close>. The heap block \<open>recent_cmr\<close> is the list of its slots.
\<close>

record anomaly_engine =
  baseline :: baseline_profile
  z_threshold :: fpval
  burst_window :: uint32_t
  sum_cmr :: fpval
  sum_cmr2 :: fpval
  sum_bmr :: fpval
  sum_bmr2 :: fpval
  sum_ipc :: fpval
  sum_ipc2 :: fpval
  n :: size_t
  consecutive_anomalies :: uint32_t
  recent_cmr :: "fpval list"
  recent_idx :: size_t
  recent_cap :: size_t

text \<open>What \<open>memset(p, 0, sizeof *p)\<close> leaves in a baseline and in a result.\<close>

definition zero_baseline :: baseline_profile where
  "zero_baseline = \<lparr> mean_cache_miss_rate = 0, std_cache_miss_rate = 0,
     mean_branch_miss_rate = 0, std_branch_miss_rate = 0, mean_ipc = 0, std_ipc = 0,
     sample_count = 0, ready = False \<rparr>"

definition zero_result :: anomaly_result where
  "zero_result = \<lparr> z_cache_miss = 0, z_branch_miss = 0, z_ipc = 0, composite_score = 0,
     anomaly_flags = 0, sustained_count = 0 \<rparr>"

text \<open>
  Undefined behaviour of the C code is a value of the model: an access outside a heap block,
  an integer division by zero, and the overflow of a signed integer.
\<close>

datatype fault = Out_of_bounds | Division_by_zero | Signed_overflow

text \<open>
  \<open>anomaly_init\<close>; \<open>None\<close> is the return value \<open>-1\<close> (\<open>calloc\<close> returned no block).
\<close>

definition anomaly_init :: "bool \<Rightarrow> fpval \<Rightarrow> uint32_t \<Rightarrow> anomaly_engine option" where
  "anomaly_init calloc_ok z_thr burst =
     (if \<not> calloc_ok then None
      else Some \<lparr> baseline = zero_baseline, z_threshold = z_thr, burst_window = burst,
                  sum_cmr = 0, sum_cmr2 = 0, sum_bmr = 0, sum_bmr2 = 0,
                  sum_ipc = 0, sum_ipc2 = 0, n = 0,
                  consecutive_anomalies = 0,
                  recent_cmr = replicate (unat burst) 0,
                  recent_idx = 0, recent_cap = ucast burst \<rparr>)"

definition anomaly_learn :: "anomaly_engine \<Rightarrow> fpval telemetry_sample \<Rightarrow> anomaly_engine" where
  "anomaly_learn eng s =
     (let cmr = cache_miss_rate s; bmr = branch_miss_rate s; ipcv = ipc s in
      eng\<lparr> sum_cmr := fp_add (sum_cmr eng) cmr,
           sum_cmr2 := fp_add (sum_cmr2 eng) (fp_mul cmr cmr),
           sum_bmr := fp_add (sum_bmr eng) bmr,
           sum_bmr2 := fp_add (sum_bmr2 eng) (fp_mul bmr bmr),
           sum_ipc := fp_add (sum_ipc eng) ipcv,
           sum_ipc2 := fp_add (sum_ipc2 eng) (fp_mul ipcv ipcv),
           n := n eng + 1 \<rparr>)"

text \<open>
  \<open>anomaly_finalize_baseline\<close>, without its diagnostic output. \<open>variance\<close> is the
  expression computed for each metric when \<open>n >= 2\<close>, with its clamp.
\<close>

definition variance :: "fpval \<Rightarrow> fpval \<Rightarrow> fpval \<Rightarrow> fpval" where
  "variance sum2 cnt mean =
     (let v = fp_sub (fp_div sum2 cnt) (fp_mul mean mean) in
      if fp_lt v (Finite 0) then Finite 0 else v)"

definition anomaly_finalize_baseline :: "anomaly_engine \<Rightarrow> anomaly_engine" where
  "anomaly_finalize_baseline eng =
     (if n eng < 1 then eng
      else
        let cnt = fp_of_u64 (n eng);
            m_cmr = fp_div (sum_cmr eng) cnt;
            m_bmr = fp_div (sum_bmr eng) cnt;
            m_ipc = fp_div (sum_ipc eng) cnt;
            var_cmr = (if 2 \<le> n eng then variance (sum_cmr2 eng) cnt m_cmr else Finite 0);
            var_bmr = (if 2 \<le> n eng then variance (sum_bmr2 eng) cnt m_bmr else Finite 0);
            var_ipc = (if 2 \<le> n eng then variance (sum_ipc2 eng) cnt m_ipc else Finite 0)
        in eng\<lparr> baseline :=
              \<lparr> mean_cache_miss_rate = m_cmr, std_cache_miss_rate = fp_sqrt var_cmr,
                mean_branch_miss_rate = m_bmr, std_branch_miss_rate = fp_sqrt var_bmr,
                mean_ipc = m_ipc, std_ipc = fp_sqrt var_ipc,
                sample_count = n eng, ready = True \<rparr> \<rparr>)"

definition compute_z :: "fpval \<Rightarrow> fpval \<Rightarrow> fpval \<Rightarrow> fpval" where
  "compute_z val mean std =
     (if fp_lt std (Finite (1 / 10 ^ 12)) then Finite 0
      else fp_div (fp_sub val mean) std)"

text \<open>
  The loop of \<open>detect_oscillation\<close>, from index \<open>i\<close> on. The counters
  \<open>direction_changes\<close> and \<open>prev_dir\<close> are C \<open>int\<close>s: incrementing \<open>INT_MAX\<close> is the
  fault \<open>Signed_overflow\<close>.
\<close>

definition INT_MAX :: int where "INT_MAX = 2 ^ 31 - 1"

function osc_loop :: "fpval list \<Rightarrow> size_t \<Rightarrow> size_t \<Rightarrow> size_t \<Rightarrow> int \<Rightarrow> int \<Rightarrow> fault + int" where
  "osc_loop buf cap idx i direction_changes prev_dir =
     (if i < cap then
        (let a = (idx + cap - i) mod cap;
             b = (idx + cap - i - 1) mod cap
         in if unat a < length buf \<and> unat b < length buf then
              (let diff = fp_sub (buf ! unat a) (buf ! unat b);
                   dir = (if fp_lt (Finite 0) diff then 1
                          else if fp_lt diff (Finite 0) then - 1 else 0);
                   changed = (dir \<noteq> 0 \<and> dir \<noteq> prev_dir \<and> prev_dir \<noteq> 0);
                   prev_dir' = (if dir \<noteq> 0 then dir else prev_dir)
               in if changed \<and> direction_changes = INT_MAX then Inl Signed_overflow
                  else osc_loop buf cap idx (i + 1)
                         (if changed then direction_changes + 1 else direction_changes) prev_dir')
            else Inl Out_of_bounds)
      else Inr direction_changes)"
  by pat_completeness auto
termination
proof (relation "measure (\<lambda>(buf, cap, idx, i, dc, pd). unat cap - unat i)")
  show "wf (measure (\<lambda>(buf, cap, idx, i, dc, pd). unat cap - unat i))" by simp
next
  fix buf :: "fpval list" and cap idx i :: size_t and direction_changes prev_dir :: int
    and a b diff dir changed pd'
  assume lt: "i < cap"
  then have l: "unat i < unat cap" by (simp add: word_less_nat_alt)
  have "unat cap < 2 ^ LENGTH(64)" by (rule unsigned_less)
  with l have "unat i + unat (1::size_t) < 2 ^ LENGTH(64)" by simp
  then have "unat (i + 1) = unat i + unat (1::size_t)" by (simp only: unat_add_lem)
  then have "unat cap - unat (i + 1) < unat cap - unat i" using l by simp
  then show "((buf, cap, idx, i + 1,
               if changed then direction_changes + 1 else direction_changes, pd'),
              (buf, cap, idx, i, direction_changes, prev_dir))
       \<in> measure (\<lambda>(buf, cap, idx, i, dc, pd). unat cap - unat i)"
    by simp
qed

text \<open>\<open>(int)(cap / 2)\<close> is the low 32 bits of the quotient, read as signed.\<close>

definition detect_oscillation :: "fpval list \<Rightarrow> size_t \<Rightarrow> size_t \<Rightarrow> fault + bool" where
  "detect_oscillation buf cap idx =
     (if cap < 4 then Inr False
      else case osc_loop buf cap idx 1 0 0 of
             Inl f \<Rightarrow> Inl f
           | Inr direction_changes \<Rightarrow>
               Inr (sint (ucast (cap div 2) :: 32 word) \<le> direction_changes))"

text \<open>
  \<open>anomaly_detect\<close>: the engine after the call and the result written to \<open>*result\<close>. The
  composite score \<open>1.0 - 1.0 / (1.0 + max_z / z_threshold)\<close> is computed with the rounded
  operations of \<open>double\<close>: whether it is 0, positive or 1 depends on the rounding of
  \<open>1.0 + max_z / z_threshold\<close>. The z-scores are read as the exact quotients, which only
  moves a value within its rounding error.
\<close>

definition anomaly_detect ::
  "anomaly_engine \<Rightarrow> fpval telemetry_sample \<Rightarrow> fault + (anomaly_engine \<times> anomaly_result)" where
  "anomaly_detect eng s =
     (if \<not> ready (baseline eng) then Inr (eng, zero_result)
      else
        let cmr = cache_miss_rate s; bmr = branch_miss_rate s; ipcv = ipc s;
            z1 = compute_z cmr (mean_cache_miss_rate (baseline eng))
                               (std_cache_miss_rate (baseline eng));
            z2 = compute_z bmr (mean_branch_miss_rate (baseline eng))
                               (std_branch_miss_rate (baseline eng));
            z3 = compute_z ipcv (mean_ipc (baseline eng)) (std_ipc (baseline eng));
            a1 = fp_lt (z_threshold eng) z1;
            a2 = fp_lt (z_threshold eng) z2;
            a3 = fp_lt z3 (fp_neg (z_threshold eng));
            flags = (if a1 then ANOMALY_CACHE_MISS_SPIKE else 0)
                    OR (if a2 then ANOMALY_BRANCH_MISS_SPIKE else 0)
                    OR (if a3 then ANOMALY_IPC_COLLAPSE else 0);
            anomalous = (a1 \<or> a2 \<or> a3)
        in if \<not> unat (recent_idx eng) < length (recent_cmr eng) then Inl Out_of_bounds
           else if recent_cap eng = 0 then Inl Division_by_zero
           else
             let window = (recent_cmr eng)[unat (recent_idx eng) := cmr];
                 idx = (recent_idx eng + 1) mod recent_cap eng;
                 consecutive = (if anomalous then consecutive_anomalies eng + 1 else 0);
                 flags = (if anomalous \<and> burst_window eng \<le> consecutive
                          then flags OR ANOMALY_BURST_PATTERN else flags)
             in case detect_oscillation window (recent_cap eng) idx of
                  Inl f \<Rightarrow> Inl f
                | Inr osc \<Rightarrow>
                    let flags = (if osc then flags OR ANOMALY_OSCILLATION else flags);
                        m = fp_abs z1;
                        m = (if fp_lt m (fp_abs z2) then fp_abs z2 else m);
                        m = (if fp_lt m (fp_abs z3) then fp_abs z3 else m);
                        c = double_sub (Finite 1)
                              (double_div (Finite 1)
                                 (double_add (Finite 1) (double_div m (z_threshold eng))));
                        c = (if fp_lt (Finite 1) c then Finite 1 else c);
                        c = (if fp_lt c (Finite 0) then Finite 0 else c)
                    in Inr (eng\<lparr> recent_cmr := window, recent_idx := idx,
                                  consecutive_anomalies := consecutive \<rparr>,
                            \<lparr> z_cache_miss = z1, z_branch_miss = z2, z_ipc = z3,
                              composite_score = c, anomaly_flags = flags,
                              sustained_count = consecutive \<rparr>))"

text \<open>
  The shape \<open>anomaly_init\<close> gives the window and every operation keeps: the block has
  \<open>recent_cap = burst_window\<close> slots and \<open>recent_idx\<close> points into it.
\<close>

definition engine_wf :: "anomaly_engine \<Rightarrow> bool" where
  "engine_wf eng \<longleftrightarrow>
     recent_cap eng = ucast (burst_window eng) \<and>
     length (recent_cmr eng) = unat (recent_cap eng) \<and>
     (recent_idx eng < recent_cap eng \<or> recent_idx eng = 0)"

text \<open>The three primary flags.\<close>

definition primary_flags :: uint32_t where
  "primary_flags = ANOMALY_CACHE_MISS_SPIKE OR ANOMALY_BRANCH_MISS_SPIKE OR ANOMALY_IPC_COLLAPSE"

text \<open>
  An engine in its detection phase, used to run the operations on concrete values: the
  baseline is the one \<open>anomaly_finalize_baseline\<close> computes after the two learning
  samples \<open>(cmr, bmr, ipc) = (0, 0, 1)\<close> and \<open>(2, 2, 3)\<close> (means 1, 1, 2; every standard
  deviation 1), the threshold is 3.5, and the window, its index and the burst counter are
  as given.
\<close>

definition detecting_engine :: "uint32_t \<Rightarrow> fpval list \<Rightarrow> size_t \<Rightarrow> uint32_t \<Rightarrow> anomaly_engine" where
  "detecting_engine burst window idx consecutive =
     \<lparr> baseline = \<lparr> mean_cache_miss_rate = Finite 1, std_cache_miss_rate = Finite 1,
                    mean_branch_miss_rate = Finite 1, std_branch_miss_rate = Finite 1,
                    mean_ipc = Finite 2, std_ipc = Finite 1,
                    sample_count = 2, ready = True \<rparr>,
       z_threshold = Finite (7 / 2), burst_window = burst,
       sum_cmr = Finite 2, sum_cmr2 = Finite 4, sum_bmr = Finite 2, sum_bmr2 = Finite 4,
       sum_ipc = Finite 4, sum_ipc2 = Finite 10, n = 2,
       consecutive_anomalies = consecutive,
       recent_cmr = window, recent_idx = idx, recent_cap = ucast burst \<rparr>"

text \<open>A sample with the given ratios and zero counters.\<close>

definition ratio_sample :: "real \<Rightarrow> real \<Rightarrow> real \<Rightarrow> fpval telemetry_sample" where
  "ratio_sample cmr bmr ipcv =
     zero_sample\<lparr> cache_miss_rate := Finite cmr, branch_miss_rate := Finite bmr,
                  ipc := Finite ipcv \<rparr>"

text \<open>
  The oscillation criterion in the words of the specification. The window is read oldest
  sample first (\<open>recent_idx\<close> is the slot written next, so the oldest); its first difference
  is the list of differences of neighbours, newer minus older; the direction of a difference
  is its sign; a sign change is a pair of unequal neighbours in the list of directions once
  the zeros are dropped, so that a zero difference neither counts as a change nor replaces
  the previous direction.
\<close>

definition window_oldest_first :: "fpval list \<Rightarrow> nat \<Rightarrow> fpval list" where
  "window_oldest_first buf idx = drop idx buf @ take idx buf"

fun first_difference :: "fpval list \<Rightarrow> fpval list" where
  "first_difference (x # y # xs) = fp_sub y x # first_difference (y # xs)"
| "first_difference _ = []"

definition direction :: "fpval \<Rightarrow> int" where
  "direction d = (if fp_lt (Finite 0) d then 1 else if fp_lt d (Finite 0) then - 1 else 0)"

fun adjacent_changes :: "int list \<Rightarrow> nat" where
  "adjacent_changes (x # y # xs) = (if x \<noteq> y then 1 else 0) + adjacent_changes (y # xs)"
| "adjacent_changes _ = 0"

definition sign_changes :: "fpval list \<Rightarrow> nat" where
  "sign_changes ds = adjacent_changes (filter (\<lambda>d. d \<noteq> 0) (map direction ds))"

definition oscillating :: "fpval list \<Rightarrow> nat \<Rightarrow> bool" where
  "oscillating buf idx \<longleftrightarrow>
     length buf div 2 \<le> sign_changes (first_difference (window_oldest_first buf idx))"

text \<open>One turn of the loop of \<open>detect_oscillation\<close> on its two counters, for the proofs.\<close>

definition osc_step :: "int \<Rightarrow> int \<times> int \<Rightarrow> int \<times> int" where
  "osc_step dir st =
     (case st of (direction_changes, prev_dir) \<Rightarrow>
        (if dir \<noteq> 0 \<and> dir \<noteq> prev_dir \<and> prev_dir \<noteq> 0
         then direction_changes + 1 else direction_changes,
         if dir \<noteq> 0 then dir else prev_dir))"

text \<open>
  The direction the loop computes at its index \<open>i\<close>, on natural numbers: \<open>c\<close> is the
  window size and \<open>x\<close> the window index.
\<close>

definition dir_at :: "fpval list \<Rightarrow> nat \<Rightarrow> nat \<Rightarrow> nat \<Rightarrow> int" where
  "dir_at buf c x i =
     direction (fp_sub (buf ! ((x + c - i) mod c)) (buf ! ((x + c - i - 1) mod c)))"

text \<open>A value that is neither an infinity nor NaN.\<close>

fun is_finite :: "fpval \<Rightarrow> bool" where
  "is_finite (Finite x) = True"
| "is_finite _ = False"

section \<open>Telemetry sampler (telemetry.c)\<close>

text \<open>
  The difference of two readings, as \<open>sampling_loop\<close> takes it: each counter is subtracted
  in 64-bit arithmetic.
\<close>

definition pmu_delta :: "pmu_reading \<Rightarrow> pmu_reading \<Rightarrow> pmu_reading" where
  "pmu_delta cur prev =
     \<lparr> pmu_reading.cache_references =
         pmu_reading.cache_references cur - pmu_reading.cache_references prev,
       pmu_reading.cache_misses = pmu_reading.cache_misses cur - pmu_reading.cache_misses prev,
       pmu_reading.branch_instructions =
         pmu_reading.branch_instructions cur - pmu_reading.branch_instructions prev,
       pmu_reading.branch_misses = pmu_reading.branch_misses cur - pmu_reading.branch_misses prev,
       pmu_reading.instructions = pmu_reading.instructions cur - pmu_reading.instructions prev,
       pmu_reading.cycles = pmu_reading.cycles cur - pmu_reading.cycles prev \<rparr>"

text \<open>\<open>compute_derived\<close>: the sample \<open>*s\<close> after the call.\<close>

definition compute_derived :: "fpval telemetry_sample \<Rightarrow> pmu_reading \<Rightarrow> fpval telemetry_sample" where
  "compute_derived s r =
     s\<lparr> cache_references := pmu_reading.cache_references r,
        cache_misses := pmu_reading.cache_misses r,
        branch_instructions := pmu_reading.branch_instructions r,
        branch_misses := pmu_reading.branch_misses r,
        instructions := pmu_reading.instructions r,
        cycles := pmu_reading.cycles r,
        cache_miss_rate :=
          (if 0 < pmu_reading.instructions r
           then fp_div (fp_of_u64 (pmu_reading.cache_misses r))
                       (fp_of_u64 (pmu_reading.instructions r))
           else Finite 0),
        branch_miss_rate :=
          (if 0 < pmu_reading.branch_instructions r
           then fp_div (fp_of_u64 (pmu_reading.branch_misses r))
                       (fp_of_u64 (pmu_reading.branch_instructions r))
           else Finite 0),
        ipc :=
          (if 0 < pmu_reading.cycles r
           then fp_div (fp_of_u64 (pmu_reading.instructions r))
                       (fp_of_u64 (pmu_reading.cycles r))
           else Finite 0) \<rparr>"

text \<open>
  The sample \<open>sampling_loop\<close> pushes for a tick: zeroed, stamped with the time read from the
  clock, and filled from the delta of the current and the previous reading.
\<close>

definition tick_sample :: "uint64_t \<Rightarrow> pmu_reading \<Rightarrow> pmu_reading \<Rightarrow> fpval telemetry_sample" where
  "tick_sample now cur prev =
     compute_derived (zero_sample\<lparr> timestamp_ns := now \<rparr>) (pmu_delta cur prev)"

section \<open>Correlation engine (correlation.h, correlation.c)\<close>

















section \<open>IPC publisher (ipc_socket.h, ipc_socket.c)\<close>

text \<open>
  The wire record \<open>ipc_socket_send\<close> fills from the sample, field by field. Here a
  \<open>float\<close> is its 32-bit pattern.
\<close>

definition ipc_wire :: "'f telemetry_sample \<Rightarrow> 'f ipc_sample_wire" where
  "ipc_wire sample =
     \<lparr> ipc_sample_wire.timestamp_ns = timestamp_ns sample,
       ipc_sample_wire.cache_references = cache_references sample,
       ipc_sample_wire.cache_misses = cache_misses sample,
       ipc_sample_wire.branch_instructions = branch_instructions sample,
       ipc_sample_wire.branch_misses = branch_misses sample,
       ipc_sample_wire.cycles = cycles sample,
       ipc_sample_wire.instructions = instructions sample,
       ipc_sample_wire.cache_miss_rate = cache_miss_rate sample,
       ipc_sample_wire.branch_miss_rate = branch_miss_rate sample,
       ipc_sample_wire.ipc = ipc sample \<rparr>"

text \<open>The first \<open>k\<close> bytes of a word, least significant byte first.\<close>

fun le_bytes :: "nat \<Rightarrow> 'a::len word \<Rightarrow> byte list" where
  "le_bytes 0 w = []"
| "le_bytes (Suc k) w = ucast w # le_bytes k (drop_bit 8 w)"

text \<open>
  The bytes handed to \<open>send\<close>: the object \<open>wire\<close> of type \<open>ipc_sample_wire_t\<close>, whose
  \<open>packed\<close> attribute lays the fields out in the order of their declaration with no padding
  between them. Each field is stored least significant byte first: the byte order is the
  target's and is little-endian as the specification's wire format has it.
\<close>

definition wire_image :: "32 word ipc_sample_wire \<Rightarrow> byte list" where
  "wire_image w =
     le_bytes 8 (ipc_sample_wire.timestamp_ns w) @
     le_bytes 8 (ipc_sample_wire.cache_references w) @
     le_bytes 8 (ipc_sample_wire.cache_misses w) @
     le_bytes 8 (ipc_sample_wire.branch_instructions w) @
     le_bytes 8 (ipc_sample_wire.branch_misses w) @
     le_bytes 8 (ipc_sample_wire.cycles w) @
     le_bytes 8 (ipc_sample_wire.instructions w) @
     le_bytes 4 (ipc_sample_wire.cache_miss_rate w) @
     le_bytes 4 (ipc_sample_wire.branch_miss_rate w) @
     le_bytes 4 (ipc_sample_wire.ipc w)"

definition ipc_datagram :: "32 word telemetry_sample \<Rightarrow> byte list" where
  "ipc_datagram sample = wire_image (ipc_wire sample)"

text \<open>
  \<open>ipc_socket_send\<close>: \<open>send_result\<close> is what \<open>send\<close> returns for the datagram (the
  environment's answer); the function returns \<open>-1\<close> for a bad descriptor or a failed send
  and \<open>0\<close> otherwise.
\<close>

definition ipc_socket_send :: "int \<Rightarrow> 32 word telemetry_sample \<Rightarrow> (byte list \<Rightarrow> int) \<Rightarrow> int" where
  "ipc_socket_send fd sample send_result =
     (if fd < 0 then - 1
      else if send_result (ipc_datagram sample) < 0 then - 1 else 0)"

text \<open>
  Modelled from the spec: the decoder of the wire record is the external analyzer
  (\<open>guardian_ml.py\<close>), which is not among the sources. From the table of the wire format: a
  record is 68 bytes; the seven unsigned 64-bit fields lie at offsets 0, 8, 16, 24, 32, 40
  and 48 in the order \<open>timestamp_ns\<close>, \<open>cache_references\<close>, \<open>cache_misses\<close>,
  \<open>branch_instructions\<close>, \<open>branch_misses\<close>, \<open>cycles\<close>, \<open>instructions\<close>, the three 32-bit
  floats at offsets 56, 60 and 64 in the order \<open>cache_miss_rate\<close>, \<open>branch_miss_rate\<close>,
  \<open>ipc\<close>, all little-endian.
\<close>

fun word_of_le :: "byte list \<Rightarrow> 'a::len word" where
  "word_of_le [] = 0"
| "word_of_le (b # bs) = ucast b OR push_bit 8 (word_of_le bs)"

definition field_at :: "nat \<Rightarrow> nat \<Rightarrow> byte list \<Rightarrow> 'a::len word" where
  "field_at offset width bs = word_of_le (take width (drop offset bs))"

definition wire_decode :: "byte list \<Rightarrow> 32 word telemetry_sample option" where
  "wire_decode bs =
     (if length bs \<noteq> 68 then None
      else Some \<lparr> timestamp_ns = field_at 0 8 bs,
                  cache_references = field_at 8 8 bs,
                  cache_misses = field_at 16 8 bs,
                  branch_instructions = field_at 24 8 bs,
                  branch_misses = field_at 32 8 bs,
                  cycles = field_at 40 8 bs,
                  instructions = field_at 48 8 bs,
                  cache_miss_rate = field_at 56 4 bs,
                  branch_miss_rate = field_at 60 4 bs,
                  ipc = field_at 64 4 bs \<rparr>)"

section \<open>Ring buffer: proofs\<close>

lemma smear_step:
  fixes x y :: "'a::len word"
  assumes "\<And>i. bit y i \<longleftrightarrow> (\<exists>k\<le>r. bit x (i + k))" and "s \<le> r + 1" and r': "r' = r + s"
  shows "bit (y OR drop_bit s y) i \<longleftrightarrow> (\<exists>k\<le>r'. bit x (i + k))"
  unfolding r'
proof
  assume "bit (y OR drop_bit s y) i"
  then consider "bit y i" | "bit y (i + s)"
    by (auto simp: bit_or_iff bit_drop_bit_eq add.commute)
  then show "\<exists>k\<le>r + s. bit x (i + k)"
  proof cases
    case 1
    then obtain k where "k \<le> r" "bit x (i + k)" using assms(1) by blast
    then show ?thesis by (intro exI[of _ k]) simp
  next
    case 2
    then obtain k where "k \<le> r" "bit x (i + s + k)" using assms(1) by blast
    then show ?thesis by (intro exI[of _ "s + k"]) (simp add: add.assoc)
  qed
next
  assume "\<exists>k\<le>r + s. bit x (i + k)"
  then obtain k where k: "k \<le> r + s" "bit x (i + k)" by blast
  show "bit (y OR drop_bit s y) i"
  proof (cases "k \<le> r")
    case True
    with k have "bit y i" using assms(1) by blast
    then show ?thesis by (simp add: bit_or_iff)
  next
    case False
    then have "k - s \<le> r" "i + s + (k - s) = i + k" using k assms(2) by auto
    with k have "bit y (i + s)" using assms(1)[of "i + s"] by metis
    then show ?thesis by (simp add: bit_or_iff bit_drop_bit_eq add.commute)
  qed
qed

lemma bit_smear: "bit (smear x) i \<longleftrightarrow> (\<exists>k\<le>63. bit x (i + k))"
proof -
  define y1 where "y1 = x OR drop_bit 1 x"
  define y2 where "y2 = y1 OR drop_bit 2 y1"
  define y3 where "y3 = y2 OR drop_bit 4 y2"
  define y4 where "y4 = y3 OR drop_bit 8 y3"
  define y5 where "y5 = y4 OR drop_bit 16 y4"
  define y6 where "y6 = y5 OR drop_bit 32 y5"
  have b0: "bit x i \<longleftrightarrow> (\<exists>k\<le>0. bit x (i + k))" for i by simp
  have b1: "bit y1 i \<longleftrightarrow> (\<exists>k\<le>1. bit x (i + k))" for i
    unfolding y1_def by (rule smear_step[OF b0]) simp_all
  have b2: "bit y2 i \<longleftrightarrow> (\<exists>k\<le>3. bit x (i + k))" for i
    unfolding y2_def by (rule smear_step[OF b1]) simp_all
  have b3: "bit y3 i \<longleftrightarrow> (\<exists>k\<le>7. bit x (i + k))" for i
    unfolding y3_def by (rule smear_step[OF b2]) simp_all
  have b4: "bit y4 i \<longleftrightarrow> (\<exists>k\<le>15. bit x (i + k))" for i
    unfolding y4_def by (rule smear_step[OF b3]) simp_all
  have b5: "bit y5 i \<longleftrightarrow> (\<exists>k\<le>31. bit x (i + k))" for i
    unfolding y5_def by (rule smear_step[OF b4]) simp_all
  have b6: "bit y6 i \<longleftrightarrow> (\<exists>k\<le>63. bit x (i + k))" for i
    unfolding y6_def by (rule smear_step[OF b5]) simp_all
  have "smear x = y6"
    by (simp add: smear_def Let_def y1_def y2_def y3_def y4_def y5_def y6_def)
  then show ?thesis using b6 by simp
qed

lemma bit_smear_ge: "bit (smear x) i \<longleftrightarrow> (\<exists>m\<ge>i. bit x m)"
proof
  assume "bit (smear x) i"
  then obtain k where "bit x (i + k)" unfolding bit_smear by blast
  then show "\<exists>m\<ge>i. bit x m" by (intro exI[of _ "i + k"]) simp
next
  assume "\<exists>m\<ge>i. bit x m"
  then obtain m where m: "i \<le> m" "bit x m" by blast
  then have "m < 64" using bit_imp_le_length[of x m] by simp
  then have "m - i \<le> 63" "i + (m - i) = m" using m by auto
  then show "bit (smear x) i" unfolding bit_smear using m(2) by metis
qed

lemma nat_bit_lower: "bit (a::nat) m \<Longrightarrow> 2 ^ m \<le> a"
proof (rule ccontr)
  assume b: "bit a m" and "\<not> 2 ^ m \<le> a"
  then have "a div 2 ^ m = 0" by simp
  with b show False by (simp add: bit_iff_odd)
qed

lemma smear_mask:
  obtains j where "j \<le> 64" "smear x = mask j" "unat x < 2 ^ j" "j = 0 \<or> 2 ^ (j - 1) \<le> unat x"
proof -
  define j where "j = (LEAST j. \<forall>m\<ge>j. \<not> bit x m)"
  have ex: "\<forall>m\<ge>64. \<not> bit x m" using bit_imp_le_length[of x] by fastforce
  have jP: "\<forall>m\<ge>j. \<not> bit x m" unfolding j_def by (rule LeastI[of _ 64]) (rule ex)
  have j64: "j \<le> 64" unfolding j_def by (rule Least_le) (rule ex)
  have jmin: "j = 0 \<or> bit x (j - 1)"
  proof (rule ccontr)
    assume "\<not> (j = 0 \<or> bit x (j - 1))"
    then have "0 < j" "\<not> bit x (j - 1)" by auto
    then have "\<forall>m\<ge>j - 1. \<not> bit x m" using jP
      by (metis Suc_pred' le_antisym not_less_eq_eq)
    then have "j \<le> j - 1" unfolding j_def by (rule Least_le)
    with \<open>0 < j\<close> show False by simp
  qed
  have bits: "bit (smear x) n \<longleftrightarrow> n < j" for n
  proof
    assume "bit (smear x) n"
    then obtain m where "n \<le> m" "bit x m" unfolding bit_smear_ge by blast
    then show "n < j" using jP by (meson not_le order.strict_trans1 not_less)
  next
    assume "n < j"
    then have "bit x (j - 1)" "n \<le> j - 1" using jmin by auto
    then show "bit (smear x) n" unfolding bit_smear_ge by blast
  qed
  have eq: "smear x = mask j"
    by (rule bit_eqI) (use bits j64 in \<open>auto simp: bit_mask_iff\<close>)
  have "take_bit j x = x"
    by (rule bit_eqI) (use jP in \<open>auto simp: bit_take_bit_iff not_le\<close>)
  then have "unat x = take_bit j (unat x)"
    by (metis unsigned_take_bit_eq)
  then have lt: "unat x < 2 ^ j"
    by (metis take_bit_nat_less_exp)
  have "j = 0 \<or> 2 ^ (j - 1) \<le> unat x"
  proof (cases "j = 0")
    case False
    then have "bit x (j - 1)" using jmin by simp
    then have "bit (unat x) (j - 1)" by (simp add: bit_unsigned_iff)
    then show ?thesis by (simp add: nat_bit_lower)
  qed simp
  with that j64 eq lt show thesis by blast
qed

lemma npot_smear: "next_power_of_two v = smear (v - 1) + 1"
  by (simp add: next_power_of_two_def smear_def Let_def)

lemma next_power_of_two_correct:
  assumes "v \<noteq> 0" and "unat v \<le> 2 ^ 63"
  shows "\<exists>k<64. next_power_of_two v = 2 ^ k \<and> unat v \<le> 2 ^ k \<and> 2 ^ k < 2 * unat v"
proof -
  have v1: "unat (v - 1) = unat v - 1" using assms(1) by (simp add: unat_minus_one)
  have vpos: "0 < unat v" using assms(1) by (simp add: unat_gt_0)
  obtain j where j: "j \<le> 64" "smear (v - 1) = mask j" "unat (v - 1) < 2 ^ j"
      "j = 0 \<or> 2 ^ (j - 1) \<le> unat (v - 1)"
    by (rule smear_mask)
  have "j < 64"
  proof (rule ccontr)
    assume "\<not> j < 64"
    then have "j = 64" using j(1) by simp
    then have "(2::nat) ^ 63 \<le> unat v - 1" using j(4) v1 by simp
    then show False using assms(2) vpos by simp
  qed
  have "next_power_of_two v = 2 ^ j"
    by (simp add: npot_smear j(2) mask_eq_decr_exp)
  moreover have "unat v \<le> 2 ^ j" using j(3) v1 vpos by simp
  moreover have "2 ^ j < 2 * unat v"
  proof (cases "j = 0")
    case True
    then show ?thesis using vpos by simp
  next
    case False
    then have "2 ^ (j - 1) \<le> unat v - 1" using j(4) v1 by simp
    moreover have "(2::nat) ^ j = 2 * 2 ^ (j - 1)" using False by (cases j) simp_all
    ultimately show ?thesis using vpos by simp
  qed
  ultimately show ?thesis using \<open>j < 64\<close> by blast
qed

lemma unat_2p_gen:
  assumes k: "k < LENGTH('a::len)"
  shows "unat ((2::'a word) ^ k) = 2 ^ k"
proof -
  have lt: "(2::nat) ^ k < 2 ^ LENGTH('a)"
    by (rule power_strict_increasing) (use k in simp_all)
  have "(2::'a word) ^ k = of_nat (2 ^ k)" by simp
  then have "unat ((2::'a word) ^ k) = 2 ^ k mod 2 ^ LENGTH('a)"
    by (simp only: unat_of_nat)
  then show ?thesis using lt by (simp only: mod_less)
qed

lemma unat_and_mask_gen: "unat ((w::'a::len word) AND (2 ^ k - 1)) = unat w mod 2 ^ k"
proof -
  have "w AND (2 ^ k - 1) = take_bit k w"
    by (simp add: take_bit_eq_mask mask_eq_decr_exp)
  then have "unat (w AND (2 ^ k - 1)) = unat (take_bit k w)" by simp
  also have "\<dots> = take_bit k (unat w)" by (rule unsigned_take_bit_eq)
  also have "\<dots> = unat w mod 2 ^ k" by (rule take_bit_eq_mod)
  finally show ?thesis .
qed

lemma mod_mod_2p: "k \<le> l \<Longrightarrow> (a mod 2 ^ l) mod 2 ^ k = (a::nat) mod 2 ^ k"
  by (rule mod_mod_cancel) (rule le_imp_power_dvd)

lemma unat_succ_mask_gen:
  assumes "k < LENGTH('a::len)"
  shows "unat (((w::'a word) + 1) AND (2 ^ k - 1)) = (unat w + 1) mod 2 ^ k"
proof -
  have "unat (w + 1) = (unat w + 1) mod 2 ^ LENGTH('a)"
    by (simp add: unat_word_ariths)
  then show ?thesis
    using assms by (simp only: unat_and_mask_gen mod_mod_2p less_imp_le)
qed

lemma unat_diff_mask_gen:
  assumes "k < LENGTH('a::len)" "unat t < 2 ^ k"
  shows "unat (((h::'a word) - t) AND (2 ^ k - 1)) = (unat h + 2 ^ k - unat t) mod 2 ^ k"
proof (cases "unat t \<le> unat h")
  case True
  then have "unat (h - t) = unat h - unat t" by (simp add: unat_sub_if_size)
  moreover have "unat h + 2 ^ k - unat t = (unat h - unat t) + 2 ^ k" using True by simp
  ultimately show ?thesis by (simp only: unat_and_mask_gen mod_add_self2)
next
  case False
  have p: "(2::nat) ^ k dvd 2 ^ LENGTH('a)"
    by (rule le_imp_power_dvd) (use assms(1) in simp)
  then obtain q where q: "(2::nat) ^ LENGTH('a) = 2 ^ k * q" by (auto simp: dvd_def)
  have "unat (h - t) = unat h + 2 ^ LENGTH('a) - unat t"
    using False by (simp add: unat_sub_if_size word_size)
  also have "\<dots> = (unat h + 2 ^ k - unat t) + 2 ^ k * (q - 1)"
  proof -
    have "q \<noteq> 0" using q by (cases q) simp_all
    then have "2 ^ k * q = 2 ^ k + 2 ^ k * (q - 1)" by (cases q) simp_all
    then show ?thesis using assms(2) unfolding q by simp
  qed
  finally have "unat (h - t) mod 2 ^ k = (unat h + 2 ^ k - unat t) mod 2 ^ k"
    by (simp only: mod_mult_self2)
  then show ?thesis by (simp only: unat_and_mask_gen)
qed

lemma mod_twice: "x < 2 * c \<Longrightarrow> (x::nat) mod c = (if x < c then x else x - c)"
  by (simp add: le_mod_geq)

lemma ring_full_iff:
  assumes "h < c" "t < (c::nat)"
  shows "(h + 1) mod c = t \<longleftrightarrow> (h + c - t) mod c = c - 1"
  using assms by (auto simp: mod_twice split: if_splits)

lemma ring_push_count:
  assumes "h < c" "t < (c::nat)" "(h + 1) mod c \<noteq> t"
  shows "((h + 1) mod c + c - t) mod c = (h + c - t) mod c + 1"
  using assms by (auto simp: mod_twice split: if_splits)

lemma ring_last_slot:
  assumes "h < c" "t < (c::nat)"
  shows "(t + (h + c - t) mod c) mod c = h"
  using assms by (auto simp: mod_twice split: if_splits)

lemma ring_other_slot:
  assumes "h < c" "t < (c::nat)" "i < (h + c - t) mod c"
  shows "(t + i) mod c \<noteq> h"
  using assms by (auto simp: mod_twice split: if_splits)

lemma ring_empty_iff:
  assumes "h < c" "t < (c::nat)"
  shows "(h + c - t) mod c = 0 \<longleftrightarrow> t = h"
  using assms by (auto simp: mod_twice split: if_splits)

lemma ring_pop_count:
  assumes "h < c" "t < (c::nat)" "t \<noteq> h"
  shows "(h + c - (t + 1) mod c) mod c = (h + c - t) mod c - 1"
  using assms by (auto simp: mod_twice split: if_splits)

lemma ring_count_less:
  assumes "h < c" "t < (c::nat)"
  shows "(h + c - t) mod c < c"
  using assms by simp

lemma rb_inv_nat:
  assumes "rb_inv rb"
  obtains k where "k < 64" "capacity rb = 2 ^ k" "unat (capacity rb) = 2 ^ k"
    "unat (head rb) < 2 ^ k" "unat (tail rb) < 2 ^ k" "length (buffer rb) = 2 ^ k"
proof -
  from assms obtain k where k: "k < 64" "capacity rb = 2 ^ k"
    and len: "length (buffer rb) = unat (capacity rb)"
    and h: "head rb < capacity rb" and t: "tail rb < capacity rb"
    unfolding rb_inv_def by blast
  have c: "unat (capacity rb) = 2 ^ k" using k unat_2p_gen[of k, where 'a=64] by simp
  show thesis
    using k c len h t by (intro that[of k]) (simp_all add: word_less_nat_alt)
qed

lemma rb_count_nat:
  assumes "rb_inv rb"
  shows "unat (ringbuffer_count rb) =
         (unat (head rb) + unat (capacity rb) - unat (tail rb)) mod unat (capacity rb)"
proof -
  from assms obtain k where k: "k < 64" "capacity rb = 2 ^ k" "unat (capacity rb) = 2 ^ k"
    "unat (tail rb) < 2 ^ k" by (rule rb_inv_nat)
  show ?thesis
    unfolding ringbuffer_count_def k(2) using unat_diff_mask_gen[of k "tail rb" "head rb"] k(1,4)
    by (simp add: unat_2p_gen)
qed

lemma rb_count_less:
  assumes "rb_inv rb"
  shows "unat (ringbuffer_count rb) < unat (capacity rb)"
proof -
  from assms obtain k where "unat (capacity rb) = 2 ^ k" by (rule rb_inv_nat)
  then show ?thesis unfolding rb_count_nat[OF assms] by simp
qed

lemma rb_next_nat:
  assumes "rb_inv rb"
  shows "unat ((head rb + 1) AND (capacity rb - 1)) = (unat (head rb) + 1) mod unat (capacity rb)"
    and "unat ((tail rb + 1) AND (capacity rb - 1)) = (unat (tail rb) + 1) mod unat (capacity rb)"
proof -
  from assms obtain k where k: "k < 64" "capacity rb = 2 ^ k" "unat (capacity rb) = 2 ^ k"
    by (rule rb_inv_nat)
  show "unat ((head rb + 1) AND (capacity rb - 1)) = (unat (head rb) + 1) mod unat (capacity rb)"
    unfolding k(3) unfolding k(2) using k(1) by (simp add: unat_succ_mask_gen)
  show "unat ((tail rb + 1) AND (capacity rb - 1)) = (unat (tail rb) + 1) mod unat (capacity rb)"
    unfolding k(3) unfolding k(2) using k(1) by (simp add: unat_succ_mask_gen)
qed

lemma rb_length_contents: "length (rb_contents rb) = unat (ringbuffer_count rb)"
  by (simp add: rb_contents_def)

lemma rb_push_full:
  assumes "rb_inv rb" and "unat (ringbuffer_count rb) = unat (capacity rb) - 1"
  shows "ringbuffer_push rb s = Some (False, rb)"
proof -
  from assms(1) obtain k where k: "unat (capacity rb) = 2 ^ k"
    "unat (head rb) < 2 ^ k" "unat (tail rb) < 2 ^ k" by (rule rb_inv_nat)
  have "(unat (head rb) + 1) mod 2 ^ k = unat (tail rb)"
    using assms(2) ring_full_iff[OF k(2,3)] unfolding rb_count_nat[OF assms(1)] k(1) by simp
  then have "unat ((head rb + 1) AND (capacity rb - 1)) = unat (tail rb)"
    unfolding rb_next_nat(1)[OF assms(1)] k(1) .
  then have "(head rb + 1) AND (capacity rb - 1) = tail rb"
    by (simp only: word_unat_eq_iff)
  then show ?thesis by (simp add: ringbuffer_push_def)
qed

lemma rb_push_ok:
  assumes "rb_inv rb" and "unat (ringbuffer_count rb) \<noteq> unat (capacity rb) - 1"
  shows "\<exists>rb'. ringbuffer_push rb s = Some (True, rb') \<and> rb_inv rb' \<and>
           capacity rb' = capacity rb \<and> rb_contents rb' = rb_contents rb @ [s]"
proof -
  from assms(1) obtain k where k: "k < 64" "capacity rb = 2 ^ k" "unat (capacity rb) = 2 ^ k"
    "unat (head rb) < 2 ^ k" "unat (tail rb) < 2 ^ k" "length (buffer rb) = 2 ^ k"
    by (rule rb_inv_nat)
  define c :: nat where "c = 2 ^ k"
  define h where "h = unat (head rb)"
  define t where "t = unat (tail rb)"
  define n where "n = (h + c - t) mod c"
  have hc: "h < c" and tc: "t < c" using k(4,5) by (simp_all add: h_def t_def c_def)
  have cnt: "unat (ringbuffer_count rb) = n"
    unfolding rb_count_nat[OF assms(1)] k(3) n_def h_def t_def c_def ..
  have nx: "unat ((head rb + 1) AND (capacity rb - 1)) = (h + 1) mod c"
    unfolding rb_next_nat(1)[OF assms(1)] k(3) h_def c_def ..
  have notfull: "(h + 1) mod c \<noteq> t"
    using assms(2) ring_full_iff[OF hc tc] unfolding cnt k(3) n_def c_def by simp
  then have ne: "(head rb + 1) AND (capacity rb - 1) \<noteq> tail rb"
    using nx unfolding t_def by auto
  define rb' where "rb' = rb\<lparr> buffer := (buffer rb)[h := s],
                              head := (head rb + 1) AND (capacity rb - 1) \<rparr>"
  have push: "ringbuffer_push rb s = Some (True, rb')"
    using ne k(6) hc by (simp add: ringbuffer_push_def rb'_def h_def c_def Let_def)
  have h': "unat (head rb') = (h + 1) mod c" using nx by (simp add: rb'_def)
  have inv': "rb_inv rb'"
    unfolding rb_inv_def
  proof (intro conjI)
    show "\<exists>k<64. capacity rb' = 2 ^ k" using k(1,2) by (auto simp: rb'_def)
    show "length (buffer rb') = unat (capacity rb')" using k(3,6) by (simp add: rb'_def)
    have "(h + 1) mod c < c" using hc by simp
    then show "head rb' < capacity rb'"
      using h' k(3) by (simp add: word_less_nat_alt rb'_def c_def)
    show "tail rb' < capacity rb'"
      using tc k(3) by (simp add: word_less_nat_alt rb'_def c_def t_def)
  qed
  have cnt': "unat (ringbuffer_count rb') = n + 1"
    unfolding rb_count_nat[OF inv'] h'
    using ring_push_count[OF hc tc notfull] k(3)
    by (simp add: rb'_def n_def c_def t_def)
  have "rb_contents rb' = rb_contents rb @ [s]"
  proof -
    have last: "(t + n) mod c = h" unfolding n_def by (rule ring_last_slot[OF hc tc])
    have other: "(t + i) mod c \<noteq> h" if "i < n" for i
      using that unfolding n_def by (rule ring_other_slot[OF hc tc])
    have "rb_contents rb' = map (\<lambda>i. (buffer rb)[h := s] ! ((t + i) mod c)) [0..<n + 1]"
      unfolding rb_contents_def cnt' by (simp add: rb'_def t_def c_def k(3))
    also have "\<dots> = map (\<lambda>i. (buffer rb)[h := s] ! ((t + i) mod c)) [0..<n] @ [s]"
      using last hc k(6) by (simp add: c_def)
    also have "map (\<lambda>i. (buffer rb)[h := s] ! ((t + i) mod c)) [0..<n]
             = map (\<lambda>i. buffer rb ! ((t + i) mod c)) [0..<n]"
    proof (rule map_cong)
      fix i assume "i \<in> set [0..<n]"
      then have "h \<noteq> (t + i) mod c" using other[of i] by auto
      then show "(buffer rb)[h := s] ! ((t + i) mod c) = buffer rb ! ((t + i) mod c)"
        by (rule nth_list_update_neq)
    qed simp
    also have "\<dots> = rb_contents rb"
      unfolding rb_contents_def cnt by (simp add: t_def c_def k(3))
    finally show ?thesis .
  qed
  with push inv' show ?thesis by (intro exI[of _ rb']) (simp add: rb'_def)
qed

lemma rb_pop_empty:
  assumes "rb_inv rb" and "rb_contents rb = []"
  shows "ringbuffer_pop rb = Some (None, rb)"
proof -
  from assms(1) obtain k where k: "unat (capacity rb) = 2 ^ k"
    "unat (head rb) < 2 ^ k" "unat (tail rb) < 2 ^ k" by (rule rb_inv_nat)
  have "unat (ringbuffer_count rb) = 0"
    using assms(2) rb_length_contents[of rb] by simp
  then have "unat (tail rb) = unat (head rb)"
    using ring_empty_iff[OF k(2,3)] unfolding rb_count_nat[OF assms(1)] k(1) by simp
  then have "tail rb = head rb" by (simp only: word_unat_eq_iff)
  then show ?thesis by (simp add: ringbuffer_pop_def)
qed

lemma rb_pop_ok:
  assumes "rb_inv rb" and "rb_contents rb = x # q"
  shows "\<exists>rb'. ringbuffer_pop rb = Some (Some x, rb') \<and> rb_inv rb' \<and>
           capacity rb' = capacity rb \<and> rb_contents rb' = q"
proof -
  from assms(1) obtain k where k: "k < 64" "capacity rb = 2 ^ k" "unat (capacity rb) = 2 ^ k"
    "unat (head rb) < 2 ^ k" "unat (tail rb) < 2 ^ k" "length (buffer rb) = 2 ^ k"
    by (rule rb_inv_nat)
  define c :: nat where "c = 2 ^ k"
  define h where "h = unat (head rb)"
  define t where "t = unat (tail rb)"
  define n where "n = (h + c - t) mod c"
  have hc: "h < c" and tc: "t < c" using k(4,5) by (simp_all add: h_def t_def c_def)
  have cnt: "unat (ringbuffer_count rb) = n"
    unfolding rb_count_nat[OF assms(1)] k(3) n_def h_def t_def c_def ..
  have npos: "n = Suc (length q)"
    using assms(2) rb_length_contents[of rb] cnt by simp
  have neq: "t \<noteq> h" using ring_empty_iff[OF hc tc] npos unfolding n_def by auto
  then have ne: "tail rb \<noteq> head rb" unfolding t_def h_def by auto
  define rb' where "rb' = rb\<lparr> tail := (tail rb + 1) AND (capacity rb - 1) \<rparr>"
  have conts: "rb_contents rb = map (\<lambda>i. buffer rb ! ((t + i) mod c)) [0..<Suc (length q)]"
    unfolding rb_contents_def cnt npos by (simp add: t_def c_def k(3))
  have x: "buffer rb ! t = x"
    using assms(2) tc unfolding conts by (simp add: upt_rec del: upt_Suc)
  have pop: "ringbuffer_pop rb = Some (Some x, rb')"
    using ne tc k(6) x by (simp add: ringbuffer_pop_def rb'_def t_def c_def)
  have t': "unat (tail rb') = (t + 1) mod c"
    using rb_next_nat(2)[OF assms(1)] by (simp add: rb'_def k(3) t_def c_def)
  have inv': "rb_inv rb'"
    unfolding rb_inv_def
  proof (intro conjI)
    show "\<exists>k<64. capacity rb' = 2 ^ k" using k(1,2) by (auto simp: rb'_def)
    show "length (buffer rb') = unat (capacity rb')" using k(3,6) by (simp add: rb'_def)
    show "head rb' < capacity rb'"
      using hc k(3) by (simp add: word_less_nat_alt rb'_def c_def h_def)
    have "(t + 1) mod c < c" using tc by simp
    then show "tail rb' < capacity rb'"
      using t' k(3) by (simp add: word_less_nat_alt rb'_def c_def)
  qed
  have cnt': "unat (ringbuffer_count rb') = length q"
    unfolding rb_count_nat[OF inv'] t'
    using ring_pop_count[OF hc tc neq] k(3) npos
    by (simp add: rb'_def n_def c_def h_def)
  have "rb_contents rb' = map (\<lambda>i. buffer rb ! (((t + 1) mod c + i) mod c)) [0..<length q]"
    unfolding rb_contents_def cnt' t' by (simp add: rb'_def c_def k(3))
  also have "\<dots> = map (\<lambda>i. buffer rb ! ((t + Suc i) mod c)) [0..<length q]"
    by (simp add: mod_add_left_eq)
  also have "\<dots> = tl (rb_contents rb)"
    unfolding conts by (simp add: upt_rec[of 0] map_Suc_upt[symmetric] del: upt_Suc)
  finally have "rb_contents rb' = q" using assms(2) by simp
  with pop inv' show ?thesis by (intro exI[of _ rb']) (simp add: rb'_def)
qed

lemma rb_run_refines:
  assumes "rb_inv rb"
  shows "\<exists>rb'. rb_run rb cs =
            Some (fst (fifo_run (unat (capacity rb) - 1) (rb_contents rb) cs), rb') \<and>
          rb_inv rb' \<and> capacity rb' = capacity rb \<and>
          rb_contents rb' = snd (fifo_run (unat (capacity rb) - 1) (rb_contents rb) cs)"
  using assms
proof (induction cs arbitrary: rb)
  case Nil
  then show ?case by simp
next
  case (Cons c cs)
  show ?case
  proof (cases c)
    case (Push s)
    show ?thesis
    proof (cases "length (rb_contents rb) < unat (capacity rb) - 1")
      case True
      then have "unat (ringbuffer_count rb) \<noteq> unat (capacity rb) - 1"
        by (simp add: rb_length_contents)
      from rb_push_ok[OF Cons.prems this, of s] obtain rb1 where
        rb1: "ringbuffer_push rb s = Some (True, rb1)" "rb_inv rb1"
          "capacity rb1 = capacity rb" "rb_contents rb1 = rb_contents rb @ [s]" by blast
      from Cons.IH[OF rb1(2)] obtain rb' where
        "rb_run rb1 cs = Some (fst (fifo_run (unat (capacity rb1) - 1) (rb_contents rb1) cs), rb')"
        "rb_inv rb'" "capacity rb' = capacity rb1"
        "rb_contents rb' = snd (fifo_run (unat (capacity rb1) - 1) (rb_contents rb1) cs)"
        by blast
      then show ?thesis using True rb1 Push
        by (intro exI[of _ rb']) (simp add: split_beta)
    next
      case False
      have "unat (ringbuffer_count rb) < unat (capacity rb)" by (rule rb_count_less[OF Cons.prems])
      with False have "unat (ringbuffer_count rb) = unat (capacity rb) - 1"
        by (simp add: rb_length_contents)
      then have p: "ringbuffer_push rb s = Some (False, rb)" by (rule rb_push_full[OF Cons.prems])
      from Cons.IH[OF Cons.prems] obtain rb' where
        "rb_run rb cs = Some (fst (fifo_run (unat (capacity rb) - 1) (rb_contents rb) cs), rb')"
        "rb_inv rb'" "capacity rb' = capacity rb"
        "rb_contents rb' = snd (fifo_run (unat (capacity rb) - 1) (rb_contents rb) cs)"
        by blast
      then show ?thesis using False p Push
        by (intro exI[of _ rb']) (simp add: split_beta)
    qed
  next
    case Pop
    show ?thesis
    proof (cases "rb_contents rb")
      case Nil
      then have p: "ringbuffer_pop rb = Some (None, rb)" by (rule rb_pop_empty[OF Cons.prems])
      from Cons.IH[OF Cons.prems] obtain rb' where
        "rb_run rb cs = Some (fst (fifo_run (unat (capacity rb) - 1) (rb_contents rb) cs), rb')"
        "rb_inv rb'" "capacity rb' = capacity rb"
        "rb_contents rb' = snd (fifo_run (unat (capacity rb) - 1) (rb_contents rb) cs)"
        by blast
      then show ?thesis using Nil p Pop
        by (intro exI[of _ rb']) (simp add: split_beta)
    next
      case (Cons x q)
      from rb_pop_ok[OF Cons.prems this] obtain rb1 where
        rb1: "ringbuffer_pop rb = Some (Some x, rb1)" "rb_inv rb1"
          "capacity rb1 = capacity rb" "rb_contents rb1 = q" by blast
      from Cons.IH[OF rb1(2)] obtain rb' where
        "rb_run rb1 cs = Some (fst (fifo_run (unat (capacity rb1) - 1) (rb_contents rb1) cs), rb')"
        "rb_inv rb'" "capacity rb' = capacity rb1"
        "rb_contents rb' = snd (fifo_run (unat (capacity rb1) - 1) (rb_contents rb1) cs)"
        by blast
      then show ?thesis using Cons rb1 Pop
        by (intro exI[of _ rb']) (simp add: split_beta)
    qed
  qed
qed

lemma fifo_run_length: "length (snd (fifo_run m q cs)) \<le> max m (length q)"
  by (induction m q cs rule: fifo_run.induct) (auto simp: split_beta split: list.splits)

lemma fifo_run_pops:
  "fifo_run m q (replicate j Pop) =
     (map Popped (map Some (take j q) @ replicate (j - length q) None), drop j q)"
proof (induction j arbitrary: q)
  case 0
  then show ?case by simp
next
  case (Suc j)
  show ?case by (cases q) (simp_all add: Suc.IH replicate_app_Cons_same)
qed

lemma fifo_run_pushes:
  "length q \<le> m \<Longrightarrow> fifo_run m q (map Push ss @ cs) =
     (map (\<lambda>i. Pushed (i < m - length q)) [0 ..< length ss] @
        fst (fifo_run m (q @ take (m - length q) ss) cs),
      snd (fifo_run m (q @ take (m - length q) ss) cs))"
proof (induction ss arbitrary: q)
  case Nil
  then show ?case by simp
next
  case (Cons s ss)
  show ?case
  proof (cases "length q < m")
    case True
    then have le: "length (q @ [s]) \<le> m" by simp
    have t: "take (m - length q) (s # ss) = s # take (m - length (q @ [s])) ss"
    proof -
      obtain d where d: "m - length q = Suc d" using True by (cases "m - length q") simp_all
      then have "m - length (q @ [s]) = d" by simp
      then show ?thesis using d by simp
    qed
    have m: "map (\<lambda>i. Pushed (i < m - length q)) [0..<length (s # ss)] =
             Pushed True # map (\<lambda>i. Pushed (i < m - length (q @ [s]))) [0..<length ss]"
      using True by (simp add: upt_rec[of 0] map_Suc_upt[symmetric] less_diff_conv del: upt_Suc)
    show ?thesis using True Cons.IH[OF le] unfolding t m by (simp add: split_beta)
  next
    case False
    with Cons.prems have eq: "m - length q = 0" by simp
    have m: "map (\<lambda>i. Pushed (i < m - length q)) [0..<length (s # ss)] =
             Pushed False # map (\<lambda>i. Pushed (i < m - length q)) [0..<length ss]"
      unfolding eq by (simp add: upt_rec[of 0] map_Suc_upt[symmetric] del: upt_Suc)
    show ?thesis using False Cons.IH[OF Cons.prems] unfolding m by (simp add: split_beta eq)
  qed
qed

lemma ringbuffer_init_ok:
  assumes "requested \<noteq> 0" and "unat requested \<le> 2 ^ 63"
  shows "\<exists>rb. ringbuffer_init True requested = Some (rb :: ('f::zero) ringbuffer) \<and>
           capacity rb = next_power_of_two requested \<and> rb_inv rb \<and> rb_contents rb = []"
proof -
  from next_power_of_two_correct[OF assms] obtain k where
    k: "k < 64" "next_power_of_two requested = 2 ^ k" by blast
  define rb :: "'f ringbuffer" where
    "rb = \<lparr> buffer = replicate (unat (next_power_of_two requested)) zero_sample,
            capacity = next_power_of_two requested, head = 0, tail = 0 \<rparr>"
  have i: "ringbuffer_init True requested = Some rb"
    using assms(1) by (simp add: ringbuffer_init_def rb_def Let_def)
  have "(0::size_t) < 2 ^ k" using k(1) by (simp add: word_less_nat_alt unat_2p_gen)
  then have inv: "rb_inv rb"
    unfolding rb_inv_def using k by (auto simp: rb_def)
  have "rb_contents rb = []"
    by (simp add: rb_contents_def ringbuffer_count_def rb_def)
  with i inv show ?thesis by (intro exI[of _ rb]) (simp add: rb_def)
qed

lemma rb_run_from_init:
  fixes requested :: size_t and cs :: "('f::zero) rb_call list"
  assumes "requested \<noteq> 0" and "unat requested \<le> 2 ^ 63"
  shows "\<exists>rb. ringbuffer_init True requested = Some rb \<and>
              capacity rb = next_power_of_two requested \<and>
              (\<exists>rs rb'. rb_run rb cs = Some (rs, rb') \<and>
                  rs = fst (fifo_run (unat (capacity rb) - 1) [] cs) \<and>
                  unat (ringbuffer_count rb') = length (snd (fifo_run (unat (capacity rb) - 1) [] cs)) \<and>
                  unat (ringbuffer_count rb') \<le> unat (capacity rb) - 1)"
proof -
  from ringbuffer_init_ok[OF assms] obtain rb :: "'f ringbuffer" where
    rb: "ringbuffer_init True requested = Some rb" "capacity rb = next_power_of_two requested"
      "rb_inv rb" "rb_contents rb = []" by blast
  define m where "m = unat (capacity rb) - 1"
  from rb_run_refines[OF rb(3), of cs] obtain rb' where
    r: "rb_run rb cs = Some (fst (fifo_run m [] cs), rb')"
      "rb_contents rb' = snd (fifo_run m [] cs)"
    unfolding rb(4) m_def by blast
  have c: "unat (ringbuffer_count rb') = length (snd (fifo_run m [] cs))"
    using r(2) rb_length_contents[of rb'] by simp
  have d: "unat (ringbuffer_count rb') \<le> m"
    unfolding c using fifo_run_length[of m "[]" cs] by simp
  have inner: "\<exists>rs rb'. rb_run rb cs = Some (rs, rb') \<and>
                  rs = fst (fifo_run (unat (capacity rb) - 1) [] cs) \<and>
                  unat (ringbuffer_count rb') = length (snd (fifo_run (unat (capacity rb) - 1) [] cs)) \<and>
                  unat (ringbuffer_count rb') \<le> unat (capacity rb) - 1"
    using r(1) c d unfolding m_def
    by (intro exI[of _ "fst (fifo_run (unat (capacity rb) - 1) [] cs)"] exI[of _ rb'] conjI) simp_all
  show ?thesis
    by (rule exI[of _ rb]) (intro conjI rb(1) rb(2) inner)
qed

lemma fifo_push_then_pop:
  "fst (fifo_run m [] (map Push ss @ replicate (length ss) Pop)) =
      map (\<lambda>i. Pushed (i < m)) [0 ..< length ss] @
      map Popped (map Some (take m ss) @ replicate (length ss - m) None)"
proof -
  have "fst (fifo_run m [] (map Push ss @ replicate (length ss) Pop)) =
      map (\<lambda>i. Pushed (i < m)) [0 ..< length ss] @
      fst (fifo_run m (take m ss) (replicate (length ss) Pop))"
    using fifo_run_pushes[of "[]" m ss "replicate (length ss) Pop"] by simp
  also have "fst (fifo_run m (take m ss) (replicate (length ss) Pop)) =
      map Popped (map Some (take m ss) @ replicate (length ss - m) None)"
    unfolding fifo_run_pops by (simp add: min_def)
  finally show ?thesis .
qed

lemma push_then_pop_from_init:
  fixes requested :: size_t and ss :: "('f::zero) telemetry_sample list"
  assumes "requested \<noteq> 0" and "unat requested \<le> 2 ^ 63"
  shows "init_and_run requested (map Push ss @ replicate (length ss) Pop) =
           Some (map (\<lambda>i. Pushed (i < unat (next_power_of_two requested) - 1)) [0 ..< length ss] @
                 map Popped (map Some (take (unat (next_power_of_two requested) - 1) ss) @
                             replicate (length ss - (unat (next_power_of_two requested) - 1)) None))"
proof -
  from rb_run_from_init[OF assms, of "map Push ss @ replicate (length ss) Pop"]
  obtain rb :: "'f ringbuffer" and rb' where
    rb: "ringbuffer_init True requested = Some rb" "capacity rb = next_power_of_two requested"
      "rb_run rb (map Push ss @ replicate (length ss) Pop) =
         Some (fst (fifo_run (unat (capacity rb) - 1) [] (map Push ss @ replicate (length ss) Pop)), rb')"
    by blast
  show ?thesis
    unfolding init_and_run_def rb(1) option.case rb(3) rb(2) fifo_push_then_pop by simp
qed

section \<open>Rounded double arithmetic: proofs\<close>

lemma rhe_cases: "round_half_even q = \<lfloor>q\<rfloor> \<or> round_half_even q = \<lfloor>q\<rfloor> + 1"
  by (simp add: round_half_even_def Let_def)

lemma rhe_of_int: "round_half_even (of_int k) = k"
  by (simp add: round_half_even_def Let_def)

lemma rhe_mono: "q \<le> r \<Longrightarrow> round_half_even q \<le> round_half_even r"
proof -
  assume le: "q \<le> r"
  have fl: "\<lfloor>q\<rfloor> \<le> \<lfloor>r\<rfloor>" using le by (rule floor_mono)
  show ?thesis
  proof (cases "\<lfloor>q\<rfloor> = \<lfloor>r\<rfloor>")
    case True
    then have "q - of_int \<lfloor>q\<rfloor> \<le> r - of_int \<lfloor>r\<rfloor>" using le by simp
    then show ?thesis using True
      by (auto simp: round_half_even_def Let_def)
  next
    case False
    then have "\<lfloor>q\<rfloor> + 1 \<le> \<lfloor>r\<rfloor>" using fl by simp
    moreover have "round_half_even q \<le> \<lfloor>q\<rfloor> + 1" using rhe_cases[of q] by auto
    moreover have "\<lfloor>r\<rfloor> \<le> round_half_even r" using rhe_cases[of r] by auto
    ultimately show ?thesis by linarith
  qed
qed

lemma rhe_ge: "of_int k \<le> q \<Longrightarrow> k \<le> round_half_even q"
  using rhe_mono[of "of_int k" q] by (simp add: rhe_of_int)

lemma rhe_le: "q \<le> of_int k \<Longrightarrow> round_half_even q \<le> k"
  using rhe_mono[of q "of_int k"] by (simp add: rhe_of_int)

lemma binade_upper:
  "(2::real) powr of_int (e + 1) = of_int (2 ^ 53) * 2 powr of_int (e - 52)"
proof -
  have "(of_int (e + 1) :: real) = of_int (e - 52) + 53" by simp
  then have "(2::real) powr of_int (e + 1) = 2 powr (of_int (e - 52) + 53)" by (simp only:)
  also have "\<dots> = 2 powr of_int (e - 52) * 2 powr 53" by (rule powr_add)
  finally show ?thesis by simp
qed

lemma binade_lower:
  "(2::real) powr of_int e = of_int (2 ^ 52) * 2 powr of_int (e - 52)"
proof -
  have "(of_int e :: real) = of_int (e - 52) + 52" by simp
  then have "(2::real) powr of_int e = 2 powr (of_int (e - 52) + 52)" by (simp only:)
  also have "\<dots> = 2 powr of_int (e - 52) * 2 powr 52" by (rule powr_add)
  finally show ?thesis by simp
qed

lemma ulp_pos: "0 < binary64_ulp x"
  by (simp add: binary64_ulp_def)

lemma exponent_mono:
  assumes "0 < x" and "x \<le> y"
  shows "binary64_exponent x \<le> binary64_exponent y"
proof -
  have "log 2 \<bar>x\<bar> \<le> log 2 \<bar>y\<bar>" using assms by simp
  then have "\<lfloor>log 2 \<bar>x\<bar>\<rfloor> \<le> \<lfloor>log 2 \<bar>y\<bar>\<rfloor>" by (rule floor_mono)
  then show ?thesis by (simp add: binary64_exponent_def)
qed

lemma below_next_binade:
  assumes "0 < x"
  shows "x < 2 powr of_int (binary64_exponent x + 1)"
proof -
  have "log 2 x < of_int (\<lfloor>log 2 x\<rfloor> + 1)" by linarith
  also have "\<dots> \<le> of_int (binary64_exponent x + 1)"
    using assms by (simp add: binary64_exponent_def)
  finally have "2 powr log 2 x < 2 powr of_int (binary64_exponent x + 1)"
    by simp
  then show ?thesis using assms by simp
qed

lemma above_binade:
  assumes "0 < x" and "- 1022 \<le> \<lfloor>log 2 x\<rfloor>"
  shows "2 powr of_int (binary64_exponent x) \<le> x"
proof -
  have e: "binary64_exponent x = \<lfloor>log 2 x\<rfloor>"
    using assms by (simp add: binary64_exponent_def)
  have "of_int \<lfloor>log 2 x\<rfloor> \<le> log 2 x" by simp
  then have "2 powr of_int \<lfloor>log 2 x\<rfloor> \<le> 2 powr log 2 x" by simp
  then show ?thesis using assms e by simp
qed

lemma nearest_upper:
  assumes "0 < x"
  shows "binary64_nearest x \<le> 2 powr of_int (binary64_exponent x + 1)"
proof -
  let ?u = "binary64_ulp x"
  have u: "0 < ?u" by (rule ulp_pos)
  have b: "2 powr of_int (binary64_exponent x + 1) = of_int (2 ^ 53) * ?u"
    unfolding binary64_ulp_def by (rule binade_upper)
  have "x / ?u < of_int (2 ^ 53)"
    using below_next_binade[OF assms] u unfolding b by (simp add: pos_divide_less_eq)
  then have "round_half_even (x / ?u) \<le> 2 ^ 53" by (intro rhe_le) simp
  then have "of_int (round_half_even (x / ?u)) * ?u \<le> of_int (2 ^ 53) * ?u"
    using u by (intro mult_right_mono) (simp_all add: of_int_le_iff[symmetric] del: of_int_le_iff)
  then show ?thesis using assms unfolding b by (simp add: binary64_nearest_def)
qed

lemma nearest_lower:
  assumes "0 < x" and "- 1022 \<le> \<lfloor>log 2 x\<rfloor>"
  shows "2 powr of_int (binary64_exponent x) \<le> binary64_nearest x"
proof -
  let ?u = "binary64_ulp x"
  have u: "0 < ?u" by (rule ulp_pos)
  have b: "2 powr of_int (binary64_exponent x) = of_int (2 ^ 52) * ?u"
    unfolding binary64_ulp_def by (rule binade_lower)
  have "of_int (2 ^ 52) \<le> x / ?u"
    using above_binade[OF assms] u unfolding b by (simp add: pos_le_divide_eq)
  then have "2 ^ 52 \<le> round_half_even (x / ?u)" by (rule rhe_ge)
  then have "of_int (2 ^ 52) * ?u \<le> of_int (round_half_even (x / ?u)) * ?u"
    using u by (intro mult_right_mono) (simp_all add: of_int_le_iff[symmetric] del: of_int_le_iff)
  then show ?thesis using assms unfolding b by (simp add: binary64_nearest_def)
qed

lemma nearest_nonneg: "0 \<le> x \<Longrightarrow> 0 \<le> binary64_nearest x"
proof -
  assume "0 \<le> x"
  then have "of_int 0 \<le> x / binary64_ulp x" using ulp_pos[of x] by simp
  then have "0 \<le> round_half_even (x / binary64_ulp x)" by (rule rhe_ge)
  then show ?thesis using ulp_pos[of x] by (simp add: binary64_nearest_def)
qed

lemma nearest_mono:
  assumes "0 \<le> x" and "x \<le> y"
  shows "binary64_nearest x \<le> binary64_nearest y"
proof (cases "x = 0")
  case True
  then show ?thesis using nearest_nonneg[of y] assms by (simp add: binary64_nearest_def)
next
  case False
  then have x: "0 < x" and y: "0 < y" using assms by simp_all
  have e: "binary64_exponent x \<le> binary64_exponent y" by (rule exponent_mono[OF x assms(2)])
  show ?thesis
  proof (cases "binary64_exponent x = binary64_exponent y")
    case True
    then have u: "binary64_ulp x = binary64_ulp y" by (simp add: binary64_ulp_def)
    have "x / binary64_ulp y \<le> y / binary64_ulp y"
      using assms(2) ulp_pos[of y] by (simp add: divide_right_mono)
    then have "round_half_even (x / binary64_ulp y) \<le> round_half_even (y / binary64_ulp y)"
      by (rule rhe_mono)
    then have "of_int (round_half_even (x / binary64_ulp y)) * binary64_ulp y \<le>
               of_int (round_half_even (y / binary64_ulp y)) * binary64_ulp y"
      using ulp_pos[of y] by (intro mult_right_mono) simp_all
    then show ?thesis using x y u by (simp add: binary64_nearest_def)
  next
    case False
    then have lt: "binary64_exponent x + 1 \<le> binary64_exponent y" using e by simp
    have "- 1022 \<le> binary64_exponent x" unfolding binary64_exponent_def by (rule max.cobounded2)
    then have "- 1022 < max \<lfloor>log 2 \<bar>y\<bar>\<rfloor> (- 1022)"
      using lt unfolding binary64_exponent_def by linarith
    moreover have "\<bar>y\<bar> = y" using y by simp
    ultimately have ly: "- 1022 \<le> \<lfloor>log 2 y\<rfloor>" by (simp only: max_def split: if_splits)
    have "binary64_nearest x \<le> 2 powr of_int (binary64_exponent x + 1)"
      by (rule nearest_upper[OF x])
    also have "\<dots> \<le> 2 powr of_int (binary64_exponent y)" using lt by simp
    also have "\<dots> \<le> binary64_nearest y" by (rule nearest_lower[OF y ly])
    finally show ?thesis .
  qed
qed

lemma exponent_eq:
  assumes "2 powr of_int e \<le> \<bar>x\<bar>" and "\<bar>x\<bar> < 2 powr of_int (e + 1)" and "- 1022 \<le> e"
  shows "binary64_exponent x = e"
proof -
  have "(0::real) < 2 powr of_int e" by simp
  then have pos: "0 < \<bar>x\<bar>" using assms(1) by linarith
  have "2 powr of_int e \<le> 2 powr log 2 \<bar>x\<bar>" using assms(1) pos by simp
  then have l: "of_int e \<le> log 2 \<bar>x\<bar>" by simp
  have "2 powr log 2 \<bar>x\<bar> < 2 powr of_int (e + 1)" using assms(2) pos by simp
  then have u: "log 2 \<bar>x\<bar> < of_int (e + 1)" by simp
  have "\<lfloor>log 2 \<bar>x\<bar>\<rfloor> = e" using l u by (intro floor_unique) simp_all
  then show ?thesis using assms(3) by (simp add: binary64_exponent_def)
qed

lemma nearest_exact:
  assumes "2 powr of_int e \<le> \<bar>x\<bar>" and "\<bar>x\<bar> < 2 powr of_int (e + 1)" and "- 1022 \<le> e"
    and "x = of_int k * 2 powr of_int (e - 52)"
  shows "binary64_nearest x = x"
proof -
  have e: "binary64_exponent x = e" by (rule exponent_eq[OF assms(1,2,3)])
  define u :: real where "u = 2 powr of_int (e - 52)"
  have u: "binary64_ulp x = u" unfolding binary64_ulp_def e u_def ..
  have up: "0 < u" by (simp add: u_def)
  have x: "x = of_int k * u" using assms(4) unfolding u_def .
  have "x / u = of_int k" unfolding x using up by simp
  then have "round_half_even (x / u) = k" by (simp only: rhe_of_int)
  then have "binary64_nearest x = (if x = 0 then 0 else of_int k * u)"
    unfolding binary64_nearest_def u by simp
  then show ?thesis using x by simp
qed

lemma powr_int_neg: "(2::real) powr of_int (- int k) = 1 / 2 ^ k"
  by (simp add: powr_minus powr_realpow divide_inverse)

lemma powr_int_pos: "(2::real) powr of_int (int k) = 2 ^ k"
  by (simp add: powr_realpow)

lemma nearest_one: "binary64_nearest 1 = 1"
  by (rule nearest_exact[where e = 0 and k = "2 ^ 52"])
     (simp_all add: powr_minus)

lemma nearest_zero: "binary64_nearest 0 = 0"
  by (simp add: binary64_nearest_def)

lemma nearest_half: "binary64_nearest (1 / 2) = 1 / 2"
  by (rule nearest_exact[where e = "- 1" and k = "2 ^ 52"]) (simp_all add: powr_minus)

lemma nearest_two: "binary64_nearest 2 = 2"
  by (rule nearest_exact[where e = 1 and k = "2 ^ 52"]) (simp_all add: powr_minus)

lemma nearest_minus_half: "binary64_nearest (- (1 / 2)) = - (1 / 2)"
  by (rule nearest_exact[where e = "- 1" and k = "- (2 ^ 52)"]) (simp_all add: powr_minus)

lemma nearest_minus_one: "binary64_nearest (- 1) = - 1"
  by (rule nearest_exact[where e = 0 and k = "- (2 ^ 52)"]) (simp_all add: powr_minus)

lemma nearest_epsilon: "binary64_nearest DBL_EPSILON = DBL_EPSILON"
  unfolding DBL_EPSILON_def
  by (rule nearest_exact[where e = "- 52" and k = "2 ^ 52"]) (simp_all add: powr_minus)

lemma nearest_roundoff: "binary64_nearest unit_roundoff = unit_roundoff"
  unfolding unit_roundoff_def
  by (rule nearest_exact[where e = "- 53" and k = "2 ^ 52"]) (simp_all add: powr_minus)

lemma nearest_above_one: "binary64_nearest (1 + DBL_EPSILON) = 1 + DBL_EPSILON"
  unfolding DBL_EPSILON_def
  by (rule nearest_exact[where e = 0 and k = "2 ^ 52 + 1"]) (simp_all add: powr_minus)

lemma nearest_below_one: "binary64_nearest (1 - unit_roundoff) = 1 - unit_roundoff"
  unfolding unit_roundoff_def
  by (rule nearest_exact[where e = "- 1" and k = "2 ^ 53 - 1"]) (simp_all add: powr_minus)

lemma nearest_tie: "binary64_nearest (1 + 1 / 2 ^ 53) = 1"
proof -
  have e: "binary64_exponent (1 + 1 / 2 ^ 53) = 0"
    by (rule exponent_eq) simp_all
  have u: "binary64_ulp (1 + 1 / 2 ^ 53) = 1 / 2 ^ 52"
    unfolding binary64_ulp_def e by (simp add: powr_minus)
  have q: "(1 + 1 / 2 ^ 53) / (1 / 2 ^ 52) = (9007199254740993 / 2 :: real)" by simp
  have r: "round_half_even (9007199254740993 / 2) = 2 ^ 52"
    by (simp add: round_half_even_def Let_def)
  show ?thesis
    unfolding binary64_nearest_def u q r by simp
qed

lemma nearest_tie_one: "binary64_nearest (1 + unit_roundoff) = 1"
  unfolding unit_roundoff_def by (rule nearest_tie)

lemma roundoff_small: "unit_roundoff < 2 ^ 1024" and roundoff_le_one: "unit_roundoff \<le> 1"
  by (simp_all add: unit_roundoff_def)

lemma epsilon_pos: "0 < DBL_EPSILON" and roundoff_pos: "0 < unit_roundoff"
  and inverse_above_one: "1 / (1 + DBL_EPSILON) \<le> 1 - unit_roundoff"
  by (simp_all add: DBL_EPSILON_def unit_roundoff_def)

lemma round64_between:
  assumes "0 \<le> lo" and "lo \<le> x" and "x \<le> hi" and "binary64_nearest hi < 2 ^ 1024"
  shows "\<exists>y. round64 x = Finite y \<and> binary64_nearest lo \<le> y \<and> y \<le> binary64_nearest hi"
proof -
  have l: "binary64_nearest lo \<le> binary64_nearest x" using assms(1,2) by (rule nearest_mono)
  have "0 \<le> x" using assms(1,2) by simp
  then have h: "binary64_nearest x \<le> binary64_nearest hi" using assms(3) by (rule nearest_mono)
  have "0 \<le> binary64_nearest x" using \<open>0 \<le> x\<close> by (rule nearest_nonneg)
  then have "round64 x = Finite (binary64_nearest x)"
    using h assms(4) by (simp add: round64_def Let_def)
  then show ?thesis using l h by simp
qed

lemma round64_above:
  assumes "0 \<le> lo" and "lo \<le> x"
  shows "round64 x = PlusInf \<or> (\<exists>y. round64 x = Finite y \<and> binary64_nearest lo \<le> y)"
proof -
  have l: "binary64_nearest lo \<le> binary64_nearest x" using assms by (rule nearest_mono)
  have "0 \<le> x" using assms by simp
  then have "0 \<le> binary64_nearest x" by (rule nearest_nonneg)
  then have "round64 x = PlusInf \<or> round64 x = Finite (binary64_nearest x)"
    by (simp add: round64_def Let_def)
  then show ?thesis using l by auto
qed

lemma round64_zero: "round64 0 = Finite 0"
  by (simp add: round64_def nearest_zero)

lemma round64_one: "round64 1 = Finite 1"
  by (simp add: round64_def nearest_one)

lemma double_div_finite: "Z \<noteq> 0 \<Longrightarrow> double_div (Finite m) (Finite Z) = round64 (m / Z)"
  by (simp add: double_div_def)

lemma double_add_finite: "double_add (Finite a) (Finite b) = round64 (a + b)"
  by (simp add: double_add_def)

lemma double_sub_finite: "double_sub (Finite a) (Finite b) = round64 (a - b)"
  by (simp add: double_sub_def fp_sub_def)

lemma double_add_inf: "double_add (Finite a) PlusInf = PlusInf"
  by (simp add: double_add_def)

lemma score_of_inf:
  "double_sub (Finite 1) (double_div (Finite 1) PlusInf) = Finite 1"
  by (simp add: double_div_def double_sub_def fp_sub_def round64_zero round64_one)

lemma score_of_sum:
  assumes s: "1 + lo \<le> s" and lo: "0 \<le> lo"
  shows "\<exists>c. double_sub (Finite 1) (double_div (Finite 1) (Finite s)) = Finite c \<and>
             binary64_nearest (1 - binary64_nearest (1 / (1 + lo))) \<le> c \<and> c \<le> 1"
proof -
  have s1: "1 \<le> s" using s lo by simp
  then have sn: "s \<noteq> 0" by simp
  have "0 \<le> 1 / s" using s1 by simp
  moreover have "1 / s \<le> 1 / (1 + lo)" using s lo by (simp add: frac_le)
  moreover have "1 / (1 + lo) \<le> 1" using lo by simp
  moreover have "binary64_nearest (1 / (1 + lo)) \<le> binary64_nearest 1"
    using lo by (intro nearest_mono) simp_all
  then have "binary64_nearest (1 / (1 + lo)) < 2 ^ 1024" by (simp add: nearest_one)
  ultimately obtain t where t: "round64 (1 / s) = Finite t" "0 \<le> t"
      "t \<le> binary64_nearest (1 / (1 + lo))"
    using round64_between[of 0 "1 / s" "1 / (1 + lo)"] by (auto simp: nearest_zero)
  have n1: "binary64_nearest (1 / (1 + lo)) \<le> 1"
    using \<open>binary64_nearest (1 / (1 + lo)) \<le> binary64_nearest 1\<close> by (simp add: nearest_one)
  have t1: "t \<le> 1" using t(3) n1 by simp
  have "\<exists>c. round64 (1 - t) = Finite c \<and>
        binary64_nearest (1 - binary64_nearest (1 / (1 + lo))) \<le> c \<and> c \<le> binary64_nearest 1"
    using t(2,3) t1 n1
    by (intro round64_between) (simp_all add: nearest_one)
  then show ?thesis
    using sn t(1) by (simp add: double_div_finite double_sub_finite nearest_one)
qed

lemma score_range:
  assumes "0 \<le> y"
  shows "\<exists>c. double_sub (Finite 1) (double_div (Finite 1) (double_add (Finite 1) (Finite y))) = Finite c \<and>
             0 \<le> c \<and> c \<le> 1"
proof -
  from round64_above[of 1 "1 + y"] assms
  consider "round64 (1 + y) = PlusInf" | s where "round64 (1 + y) = Finite s" "1 \<le> s"
    by (auto simp: nearest_one)
  then show ?thesis
  proof cases
    case 1
    then show ?thesis using score_of_inf by (simp add: double_add_finite)
  next
    case 2
    from score_of_sum[of 0 s] 2(2) obtain c where
      "double_sub (Finite 1) (double_div (Finite 1) (Finite s)) = Finite c"
      "binary64_nearest (1 - binary64_nearest (1 / (1 + 0))) \<le> c" "c \<le> 1"
      by auto
    then show ?thesis using 2(1) by (simp add: double_add_finite nearest_one nearest_zero)
  qed
qed

lemma score_positive:
  assumes "DBL_EPSILON \<le> y"
  shows "\<exists>c. double_sub (Finite 1) (double_div (Finite 1) (double_add (Finite 1) (Finite y))) = Finite c \<and>
             unit_roundoff \<le> c \<and> c \<le> 1"
proof -
  from round64_above[of "1 + DBL_EPSILON" "1 + y"] assms epsilon_pos
  consider "round64 (1 + y) = PlusInf"
    | s where "round64 (1 + y) = Finite s" "1 + DBL_EPSILON \<le> s"
    by (auto simp: nearest_above_one)
  then show ?thesis
  proof cases
    case 1
    then show ?thesis using score_of_inf roundoff_le_one by (simp add: double_add_finite)
  next
    case 2
    have "binary64_nearest (1 / (1 + DBL_EPSILON)) \<le> binary64_nearest (1 - unit_roundoff)"
      using epsilon_pos by (intro nearest_mono inverse_above_one) simp
    then have a: "binary64_nearest (1 / (1 + DBL_EPSILON)) \<le> 1 - unit_roundoff"
      by (simp only: nearest_below_one)
    have "0 \<le> binary64_nearest (1 / (1 + DBL_EPSILON))"
      using epsilon_pos by (intro nearest_nonneg) simp
    then have "binary64_nearest (unit_roundoff) \<le>
               binary64_nearest (1 - binary64_nearest (1 / (1 + DBL_EPSILON)))"
      using a roundoff_pos by (intro nearest_mono) simp_all
    then have b: "unit_roundoff \<le> binary64_nearest (1 - binary64_nearest (1 / (1 + DBL_EPSILON)))"
      by (simp only: nearest_roundoff)
    from score_of_sum[of "DBL_EPSILON" s] 2(2) epsilon_pos obtain c where
      "double_sub (Finite 1) (double_div (Finite 1) (Finite s)) = Finite c"
      "binary64_nearest (1 - binary64_nearest (1 / (1 + DBL_EPSILON))) \<le> c" "c \<le> 1"
      by auto
    then show ?thesis using 2(1) b by (simp add: double_add_finite)
  qed
qed

lemma score_absorbed:
  assumes "0 \<le> y" and "y \<le> unit_roundoff"
  shows "double_sub (Finite 1) (double_div (Finite 1) (double_add (Finite 1) (Finite y))) = Finite 0"
proof -
  have "\<exists>s. round64 (1 + y) = Finite s \<and> binary64_nearest 1 \<le> s \<and>
          s \<le> binary64_nearest (1 + unit_roundoff)"
    using assms by (intro round64_between) (simp_all add: nearest_tie_one)
  then have "round64 (1 + y) = Finite 1" by (auto simp: nearest_one nearest_tie_one)
  then show ?thesis
    by (simp add: double_add_finite double_div_finite double_sub_finite round64_one round64_zero)
qed

lemma composite_double:
  fixes m Z :: real
  assumes m: "0 \<le> m" and Z: "0 < Z"
  shows "\<exists>c. double_sub (Finite 1) (double_div (Finite 1) (double_add (Finite 1)
                (double_div (Finite m) (Finite Z)))) = Finite c \<and> 0 \<le> c \<and> c \<le> 1"
    and "m / Z \<le> unit_roundoff \<Longrightarrow>
         double_sub (Finite 1) (double_div (Finite 1) (double_add (Finite 1)
                (double_div (Finite m) (Finite Z)))) = Finite 0"
    and "DBL_EPSILON \<le> m / Z \<Longrightarrow>
         \<exists>c. double_sub (Finite 1) (double_div (Finite 1) (double_add (Finite 1)
                (double_div (Finite m) (Finite Z)))) = Finite c \<and> 0 < c"
proof -
  have q: "0 \<le> m / Z" using m Z by simp
  have d: "double_div (Finite m) (Finite Z) = round64 (m / Z)"
    using Z by (simp add: double_div_finite)
  from round64_above[of 0 "m / Z"] q
  consider "round64 (m / Z) = PlusInf" | y where "round64 (m / Z) = Finite y" "0 \<le> y"
    by (auto simp: nearest_zero)
  then show "\<exists>c. double_sub (Finite 1) (double_div (Finite 1) (double_add (Finite 1)
                (double_div (Finite m) (Finite Z)))) = Finite c \<and> 0 \<le> c \<and> c \<le> 1"
  proof cases
    case 1
    then show ?thesis unfolding d using score_of_inf by (simp add: double_add_inf)
  next
    case 2
    then show ?thesis unfolding d using score_range[of y] by simp
  qed
  show "double_sub (Finite 1) (double_div (Finite 1) (double_add (Finite 1)
                (double_div (Finite m) (Finite Z)))) = Finite 0"
    if "m / Z \<le> unit_roundoff"
  proof -
    have "\<exists>y. round64 (m / Z) = Finite y \<and> binary64_nearest 0 \<le> y \<and>
            y \<le> binary64_nearest (unit_roundoff)"
      using q that roundoff_small by (intro round64_between) (simp_all add: nearest_roundoff)
    then obtain y where "round64 (m / Z) = Finite y" "0 \<le> y" "y \<le> unit_roundoff"
      by (auto simp: nearest_zero nearest_roundoff)
    then show ?thesis unfolding d using score_absorbed[of y] by simp
  qed
  show "\<exists>c. double_sub (Finite 1) (double_div (Finite 1) (double_add (Finite 1)
                (double_div (Finite m) (Finite Z)))) = Finite c \<and> 0 < c"
    if "DBL_EPSILON \<le> m / Z"
  proof -
    from round64_above[of "DBL_EPSILON" "m / Z"] that epsilon_pos
    consider "round64 (m / Z) = PlusInf"
      | y where "round64 (m / Z) = Finite y" "DBL_EPSILON \<le> y"
      by (auto simp: nearest_epsilon)
    then show ?thesis
    proof cases
      case 1
      then show ?thesis unfolding d using score_of_inf by (simp add: double_add_inf)
    next
      case 2
      from score_positive[OF 2(2)] obtain c where
        "double_sub (Finite 1) (double_div (Finite 1) (double_add (Finite 1) (Finite y))) = Finite c"
        "unit_roundoff \<le> c" by auto
      moreover from this(2) have "0 < c" using roundoff_pos by linarith
      ultimately show ?thesis unfolding d 2(1) by blast
    qed
  qed
qed

section \<open>Anomaly engine: proofs\<close>

lemma unat_ucast_32_64: "unat (ucast (w :: 32 word) :: 64 word) = unat w"
proof -
  have "unat w < 2 ^ LENGTH(32)" by (rule unsigned_less)
  also have "(2::nat) ^ LENGTH(32) \<le> 2 ^ LENGTH(64)" by (rule power_increasing) simp_all
  finally have "take_bit LENGTH(64) (unat w) = unat w" by (simp only: take_bit_nat_eq_self)
  then show ?thesis by (simp only: unsigned_ucast_eq)
qed

lemma osc_index_nat:
  fixes cap idx i :: size_t
  assumes idx: "idx < cap" and i: "i < cap" and capb: "unat cap < 2 ^ 63"
  shows "unat ((idx + cap - i) mod cap) = (unat idx + unat cap - unat i) mod unat cap"
    and "unat ((idx + cap - i - 1) mod cap) = (unat idx + unat cap - unat i - 1) mod unat cap"
    and "unat (i + 1) = unat i + 1"
proof -
  have il: "unat i < unat cap" and xl: "unat idx < unat cap"
    using idx i by (simp_all add: word_less_nat_alt)
  have p: "(2::nat) ^ LENGTH(64) = 2 * 2 ^ 63" by simp
  have "unat idx + unat cap < 2 ^ LENGTH(64)" using xl capb unfolding p by linarith
  then have s: "unat (idx + cap) = unat idx + unat cap" by (simp only: unat_add_lem)
  have "unat i \<le> unat (idx + cap)" using il unfolding s by simp
  then have d: "unat (idx + cap - i) = unat idx + unat cap - unat i"
    unfolding s[symmetric] by (simp add: unat_sub_if_size)
  show "unat ((idx + cap - i) mod cap) = (unat idx + unat cap - unat i) mod unat cap"
    by (simp only: unat_mod d)
  have "unat (1::size_t) \<le> unat (idx + cap - i)" using il unfolding d by simp
  then have "unat (idx + cap - i - 1) = unat idx + unat cap - unat i - 1"
    unfolding d[symmetric] by (simp add: unat_sub_if_size)
  then show "unat ((idx + cap - i - 1) mod cap) = (unat idx + unat cap - unat i - 1) mod unat cap"
    by (simp only: unat_mod)
  have "unat i + unat (1::size_t) < 2 ^ LENGTH(64)" using il capb unfolding p by simp
  then show "unat (i + 1) = unat i + 1" by (simp only: unat_add_lem) simp
qed

lemma osc_step_fst_le: "fst (osc_step d st) \<le> fst st + 1" and "fst st \<le> fst (osc_step d st)"
  by (cases st; simp add: osc_step_def)+

lemma osc_loop_fold:
  assumes "length buf = unat cap" and "idx < cap" and "unat cap < 2 ^ 63"
    and "dc + int (unat cap - unat i) \<le> INT_MAX"
  shows "osc_loop buf cap idx i dc pd =
     Inr (fst (fold osc_step (map (dir_at buf (unat cap) (unat idx)) [unat i ..< unat cap]) (dc, pd)))"
  using assms
proof (induction buf cap idx i dc pd rule: osc_loop.induct)
  case (1 buf cap idx i dc pd)
  show ?case
  proof (cases "i < cap")
    case True
    note ix = osc_index_nat[OF "1.prems"(2) True "1.prems"(3)]
    have il: "unat i < unat cap" using True by (simp add: word_less_nat_alt)
    have c0: "0 < unat cap" using il by simp
    have ra: "unat ((idx + cap - i) mod cap) < length buf"
      and rb: "unat ((idx + cap - i - 1) mod cap) < length buf"
      unfolding ix "1.prems"(1) using c0 by simp_all
    define dir where "dir = dir_at buf (unat cap) (unat idx) (unat i)"
    have dir: "(if fp_lt (Finite 0) (fp_sub (buf ! unat ((idx + cap - i) mod cap))
                                           (buf ! unat ((idx + cap - i - 1) mod cap))) then 1
                else if fp_lt (fp_sub (buf ! unat ((idx + cap - i) mod cap))
                                      (buf ! unat ((idx + cap - i - 1) mod cap))) (Finite 0)
                     then - 1 else 0) = dir"
      unfolding dir_def dir_at_def direction_def ix ..
    have "unat cap - unat i = Suc (unat cap - unat (i + 1))" using il unfolding ix by simp
    then have pos: "int (unat cap - unat i) = int (unat cap - unat (i + 1)) + 1"
      by (simp only: of_nat_Suc)
    have nomax: "dc \<noteq> INT_MAX" using "1.prems"(4) unfolding pos by linarith
    have bound': "(if dir \<noteq> 0 \<and> dir \<noteq> pd \<and> pd \<noteq> 0 then dc + 1 else dc)
                    + int (unat cap - unat (i + 1)) \<le> INT_MAX"
      using "1.prems"(4) unfolding pos by (simp only: split: if_split) linarith
    have up: "[unat i ..< unat cap] = unat i # [unat (i + 1) ..< unat cap]"
      unfolding ix using il by (simp add: upt_conv_Cons)
    have ih: "osc_loop buf cap idx (i + 1)
                (if dir \<noteq> 0 \<and> dir \<noteq> pd \<and> pd \<noteq> 0 then dc + 1 else dc)
                (if dir \<noteq> 0 then dir else pd) =
              Inr (fst (fold osc_step (map (dir_at buf (unat cap) (unat idx)) [unat (i + 1) ..< unat cap])
                 (if dir \<noteq> 0 \<and> dir \<noteq> pd \<and> pd \<noteq> 0 then dc + 1 else dc,
                  if dir \<noteq> 0 then dir else pd)))"
      by (rule "1.IH"[OF True refl refl _ refl refl refl refl _ "1.prems"(1,2,3), unfolded dir])
         (use ra rb nomax bound' in simp_all)
    have unf: "osc_loop buf cap idx i dc pd =
            osc_loop buf cap idx (i + 1)
                (if dir \<noteq> 0 \<and> dir \<noteq> pd \<and> pd \<noteq> 0 then dc + 1 else dc)
                (if dir \<noteq> 0 then dir else pd)"
      by (subst osc_loop.simps)
         (simp only: True ra rb dir nomax Let_def if_True if_False simp_thms)
    have st: "osc_step dir (dc, pd) =
        (if dir \<noteq> 0 \<and> dir \<noteq> pd \<and> pd \<noteq> 0 then dc + 1 else dc,
         if dir \<noteq> 0 then dir else pd)"
      by (simp add: osc_step_def)
    have fo: "fold osc_step (map (dir_at buf (unat cap) (unat idx)) [unat i ..< unat cap]) (dc, pd) =
        fold osc_step (map (dir_at buf (unat cap) (unat idx)) [unat (i + 1) ..< unat cap])
          (osc_step dir (dc, pd))"
      unfolding up dir_def by simp
    show ?thesis
      unfolding unf ih fo st ..
  next
    case False
    then have "\<not> unat i < unat cap" by (simp add: word_less_nat_alt)
    then show ?thesis using False by (subst osc_loop.simps) simp
  qed
qed

lemma fold_osc_step:
  "fst (fold osc_step ds (dc, pd)) =
     dc + int (adjacent_changes (filter (\<lambda>d. d \<noteq> 0) (pd # ds)))"
proof (induction ds arbitrary: dc pd)
  case Nil
  then show ?case by simp
next
  case (Cons d ds)
  show ?case
  proof (cases "d = 0")
    case True
    then show ?thesis using Cons.IH[of dc pd] by (simp add: osc_step_def)
  next
    case False
    show ?thesis
    proof (cases "pd = 0")
      case True
      then show ?thesis using False Cons.IH[of dc d] by (simp add: osc_step_def)
    next
      case pd: False
      show ?thesis
      proof (cases "d = pd")
        case True
        then show ?thesis using False pd Cons.IH[of dc d] by (simp add: osc_step_def)
      next
        case ne: False
        then show ?thesis using False pd Cons.IH[of "dc + 1" d] by (simp add: osc_step_def)
      qed
    qed
  qed
qed

lemma adjacent_changes_snoc:
  "adjacent_changes (xs @ [y]) =
     adjacent_changes xs + (if xs \<noteq> [] \<and> last xs \<noteq> y then 1 else 0)"
  by (induction xs rule: adjacent_changes.induct) auto

lemma adjacent_changes_rev: "adjacent_changes (rev xs) = adjacent_changes xs"
proof (induction xs rule: adjacent_changes.induct)
  case (1 x y xs)
  have "adjacent_changes (rev (x # y # xs)) = adjacent_changes (rev (y # xs) @ [x])" by simp
  also have "\<dots> = adjacent_changes (rev (y # xs)) + (if y \<noteq> x then 1 else 0)"
    unfolding adjacent_changes_snoc by (simp add: last_rev)
  finally show ?case using 1 by auto
qed simp_all

lemma length_first_difference: "length (first_difference xs) = length xs - 1"
  by (induction xs rule: first_difference.induct) simp_all

lemma nth_first_difference:
  "Suc k < length xs \<Longrightarrow> first_difference xs ! k = fp_sub (xs ! Suc k) (xs ! k)"
proof (induction xs arbitrary: k rule: first_difference.induct)
  case (1 x y xs)
  then show ?case by (cases k) simp_all
qed simp_all

lemma nth_window_oldest_first:
  assumes "idx < length buf" and "j < length buf"
  shows "window_oldest_first buf idx ! j = buf ! ((idx + j) mod length buf)"
proof (cases "j < length buf - idx")
  case True
  then show ?thesis using assms by (simp add: window_oldest_first_def nth_append)
next
  case False
  then have ge: "length buf \<le> idx + j" by simp
  have "idx + j < 2 * length buf" using assms by simp
  then have "(idx + j) mod length buf = idx + j - length buf"
    using ge by (simp add: mod_twice)
  moreover have "j - (length buf - idx) = idx + j - length buf" using assms False by simp
  ultimately show ?thesis using assms False
    by (simp add: window_oldest_first_def nth_append min_def)
qed

lemma loop_directions_rev:
  assumes "x < length buf"
  shows "map (dir_at buf (length buf) x) [1 ..< length buf] =
         rev (map direction (first_difference (window_oldest_first buf x)))"
proof (rule nth_equalityI)
  define c where "c = length buf"
  define w where "w = window_oldest_first buf x"
  have lw: "length w = c" by (simp add: w_def c_def window_oldest_first_def)
  show "length (map (dir_at buf (length buf) x) [1 ..< length buf]) =
        length (rev (map direction (first_difference (window_oldest_first buf x))))"
    using lw by (simp add: length_first_difference w_def c_def)
  fix k assume "k < length (map (dir_at buf (length buf) x) [1 ..< length buf])"
  then have k: "k < c - 1" by (simp add: c_def)
  have lhs: "map (dir_at buf c x) [1 ..< c] ! k = dir_at buf c x (Suc k)"
    using k by simp
  have "rev (map direction (first_difference w)) ! k =
        map direction (first_difference w) ! (c - 1 - Suc k)"
    using k lw by (simp add: rev_nth length_first_difference)
  also have "\<dots> = direction (first_difference w ! (c - 2 - k))"
    using k lw by (simp add: length_first_difference)
  also have "first_difference w ! (c - 2 - k) = fp_sub (w ! Suc (c - 2 - k)) (w ! (c - 2 - k))"
    using k lw by (intro nth_first_difference) simp
  also have "w ! Suc (c - 2 - k) = buf ! ((x + Suc (c - 2 - k)) mod c)"
    unfolding w_def c_def using assms k by (intro nth_window_oldest_first) (simp_all add: c_def)
  also have "w ! (c - 2 - k) = buf ! ((x + (c - 2 - k)) mod c)"
    unfolding w_def c_def using assms k by (intro nth_window_oldest_first) (simp_all add: c_def)
  also have "x + Suc (c - 2 - k) = x + c - Suc k" using k by simp
  also have "x + (c - 2 - k) = x + c - Suc k - 1" using k by simp
  finally have rhs: "rev (map direction (first_difference w)) ! k = dir_at buf c x (Suc k)"
    by (simp add: dir_at_def)
  show "map (dir_at buf (length buf) x) [1 ..< length buf] ! k =
        rev (map direction (first_difference (window_oldest_first buf x))) ! k"
    using lhs rhs unfolding c_def w_def by simp
qed

lemma int_half_cap:
  fixes cap :: size_t
  assumes "unat cap < 2 ^ 32"
  shows "sint (ucast (cap div 2) :: 32 word) = int (unat cap div 2)"
proof -
  have h: "unat (cap div 2) = unat cap div 2" by (simp add: unat_div)
  have lt: "unat cap div 2 < 2 ^ 31" using assms by simp
  have "unat (ucast (cap div 2) :: 32 word) = take_bit LENGTH(32) (unat (cap div 2))"
    by (rule unsigned_ucast_eq)
  also have "\<dots> = unat cap div 2"
    unfolding h using lt by (simp add: take_bit_nat_eq_self)
  finally have u: "uint (ucast (cap div 2) :: 32 word) = int (unat cap div 2)"
    by (simp only: uint_nat)
  have "sint (ucast (cap div 2) :: 32 word) =
      signed_take_bit (LENGTH(32) - Suc 0) (uint (ucast (cap div 2) :: 32 word))"
    by (rule sint_uint)
  also have "\<dots> = int (unat cap div 2)"
    unfolding u using lt by (simp add: signed_take_bit_int_eq_self)
  finally show ?thesis .
qed

lemma detect_oscillation_spec:
  assumes len: "length buf = unat cap" and idx: "idx < cap" and capb: "unat cap \<le> 2 ^ 31"
  shows "detect_oscillation buf cap idx = Inr (4 \<le> cap \<and> oscillating buf (unat idx))"
proof (cases "cap < 4")
  case True
  then show ?thesis by (simp add: detect_oscillation_def not_le[symmetric])
next
  case False
  have capb': "unat cap < 2 ^ 63" and capb32: "unat cap < 2 ^ 32"
    using capb by simp_all
  have x: "unat idx < length buf" using idx len by (simp add: word_less_nat_alt)
  have "0 + int (unat cap - unat (1::size_t)) \<le> INT_MAX"
    using capb by (simp add: INT_MAX_def)
  then have "osc_loop buf cap idx 1 0 0 =
      Inr (fst (fold osc_step (map (dir_at buf (unat cap) (unat idx)) [unat (1::size_t) ..< unat cap]) (0, 0)))"
    by (rule osc_loop_fold[OF len idx capb'])
  also have "fst (fold osc_step (map (dir_at buf (unat cap) (unat idx)) [unat (1::size_t) ..< unat cap]) (0, 0)) =
      int (adjacent_changes (filter (\<lambda>d. d \<noteq> 0) (map (dir_at buf (length buf) (unat idx)) [1 ..< length buf])))"
    unfolding fold_osc_step len by simp
  also have "\<dots> = int (sign_changes (first_difference (window_oldest_first buf (unat idx))))"
    unfolding loop_directions_rev[OF x] sign_changes_def
    by (simp only: rev_filter[symmetric] adjacent_changes_rev)
  finally have loop: "osc_loop buf cap idx 1 0 0 =
      Inr (int (sign_changes (first_difference (window_oldest_first buf (unat idx)))))" .
  have c4: "4 \<le> cap" using False by simp
  show ?thesis
    unfolding detect_oscillation_def loop int_half_cap[OF capb32] oscillating_def len
    using False c4 by simp
qed

lemma flag_bits:
  "((if a1 then ANOMALY_CACHE_MISS_SPIKE else 0) OR (if a2 then ANOMALY_BRANCH_MISS_SPIKE else 0)
      OR (if a3 then ANOMALY_IPC_COLLAPSE else 0)
      OR (if b then ANOMALY_BURST_PATTERN else 0)
      OR (if c then ANOMALY_OSCILLATION else 0)) AND primary_flags \<noteq> 0 \<longleftrightarrow> a1 \<or> a2 \<or> a3"
  "((if a1 then ANOMALY_CACHE_MISS_SPIKE else 0) OR (if a2 then ANOMALY_BRANCH_MISS_SPIKE else 0)
      OR (if a3 then ANOMALY_IPC_COLLAPSE else 0)
      OR (if b then ANOMALY_BURST_PATTERN else 0)
      OR (if c then ANOMALY_OSCILLATION else 0)) AND ANOMALY_BURST_PATTERN \<noteq> 0 \<longleftrightarrow> b"
  "((if a1 then ANOMALY_CACHE_MISS_SPIKE else 0) OR (if a2 then ANOMALY_BRANCH_MISS_SPIKE else 0)
      OR (if a3 then ANOMALY_IPC_COLLAPSE else 0)
      OR (if b then ANOMALY_BURST_PATTERN else 0)
      OR (if c then ANOMALY_OSCILLATION else 0)) AND ANOMALY_OSCILLATION \<noteq> 0 \<longleftrightarrow> c"
  by (cases a1; cases a2; cases a3; cases b; cases c;
      simp add: primary_flags_def ANOMALY_CACHE_MISS_SPIKE_def ANOMALY_BRANCH_MISS_SPIKE_def
        ANOMALY_IPC_COLLAPSE_def ANOMALY_BURST_PATTERN_def ANOMALY_OSCILLATION_def)+

lemma engine_wf_window:
  assumes wf: "engine_wf eng" and bw: "burst_window eng \<noteq> 0"
    and bound: "unat (burst_window eng) \<le> 2 ^ 31"
  shows "recent_cap eng \<noteq> 0" and "unat (recent_idx eng) < length (recent_cmr eng)"
    and "detect_oscillation ((recent_cmr eng)[unat (recent_idx eng) := v])
           (recent_cap eng) ((recent_idx eng + 1) mod recent_cap eng) =
         Inr (4 \<le> recent_cap eng \<and>
              oscillating ((recent_cmr eng)[unat (recent_idx eng) := v])
                (unat ((recent_idx eng + 1) mod recent_cap eng)))"
proof -
  have cu: "unat (recent_cap eng) = unat (burst_window eng)"
    using wf by (simp add: engine_wf_def unat_ucast_32_64)
  show cap: "recent_cap eng \<noteq> 0"
  proof
    assume "recent_cap eng = 0"
    then have "unat (burst_window eng) = 0" using cu by simp
    then show False using bw by (simp add: unat_eq_0)
  qed
  show "unat (recent_idx eng) < length (recent_cmr eng)"
    using wf cap by (auto simp: engine_wf_def word_less_nat_alt unat_gt_0)
  have len: "length ((recent_cmr eng)[unat (recent_idx eng) := v]) = unat (recent_cap eng)"
    using wf by (simp add: engine_wf_def)
  have lt: "(recent_idx eng + 1) mod recent_cap eng < recent_cap eng"
    using cap by (simp add: word_mod_less_divisor word_greater_zero_iff)
  have b: "unat (recent_cap eng) \<le> 2 ^ 31" using bound cu by simp
  show "detect_oscillation ((recent_cmr eng)[unat (recent_idx eng) := v])
           (recent_cap eng) ((recent_idx eng + 1) mod recent_cap eng) =
         Inr (4 \<le> recent_cap eng \<and>
              oscillating ((recent_cmr eng)[unat (recent_idx eng) := v])
                (unat ((recent_idx eng + 1) mod recent_cap eng)))"
    by (rule detect_oscillation_spec[OF len lt b])
qed

lemma anomaly_detect_ready:
  assumes wf: "engine_wf eng" and bw: "burst_window eng \<noteq> 0"
    and bound: "unat (burst_window eng) \<le> 2 ^ 31" and rdy: "ready (baseline eng)"
  shows "\<exists>eng' res a1 a2 a3 b osc.
      anomaly_detect eng s = Inr (eng', res) \<and>
      a1 = fp_lt (z_threshold eng) (z_cache_miss res) \<and>
      a2 = fp_lt (z_threshold eng) (z_branch_miss res) \<and>
      a3 = fp_lt (z_ipc res) (fp_neg (z_threshold eng)) \<and>
      consecutive_anomalies eng' = (if a1 \<or> a2 \<or> a3 then consecutive_anomalies eng + 1 else 0) \<and>
      b = ((a1 \<or> a2 \<or> a3) \<and> burst_window eng \<le> consecutive_anomalies eng') \<and>
      osc = (4 \<le> recent_cap eng \<and> oscillating (recent_cmr eng') (unat (recent_idx eng'))) \<and>
      recent_cmr eng' = (recent_cmr eng)[unat (recent_idx eng) := cache_miss_rate s] \<and>
      recent_idx eng' = (recent_idx eng + 1) mod recent_cap eng \<and>
      recent_cap eng' = recent_cap eng \<and> burst_window eng' = burst_window eng \<and>
      baseline eng' = baseline eng \<and> z_threshold eng' = z_threshold eng \<and>
      sustained_count res = consecutive_anomalies eng' \<and>
      anomaly_flags res =
        (if a1 then ANOMALY_CACHE_MISS_SPIKE else 0) OR (if a2 then ANOMALY_BRANCH_MISS_SPIKE else 0)
        OR (if a3 then ANOMALY_IPC_COLLAPSE else 0)
        OR (if b then ANOMALY_BURST_PATTERN else 0)
        OR (if osc then ANOMALY_OSCILLATION else 0)"
  using rdy engine_wf_window(1,2)[OF wf bw bound]
    engine_wf_window(3)[OF wf bw bound, where v = "cache_miss_rate s"]
  by (simp add: anomaly_detect_def Let_def or.assoc)

lemma engine_wf_init:
  assumes "anomaly_init calloc_ok z b = Some eng"
  shows "engine_wf eng \<and> \<not> ready (baseline eng) \<and> burst_window eng = b \<and> z_threshold eng = z"
  using assms
  by (auto simp: anomaly_init_def engine_wf_def zero_baseline_def unat_ucast_32_64 split: if_splits)

lemma engine_wf_learn: "engine_wf eng \<Longrightarrow> engine_wf (anomaly_learn eng s)"
  by (auto simp: engine_wf_def anomaly_learn_def Let_def)

lemma engine_wf_finalize: "engine_wf eng \<Longrightarrow> engine_wf (anomaly_finalize_baseline eng)"
  by (auto simp: engine_wf_def anomaly_finalize_baseline_def Let_def)

lemma anomaly_detect_Inr_window:
  assumes d: "anomaly_detect eng s = Inr (eng', res)" and rdy: "ready (baseline eng)"
  shows "recent_cap eng \<noteq> 0 \<and> recent_cap eng' = recent_cap eng \<and>
         burst_window eng' = burst_window eng \<and>
         recent_idx eng' = (recent_idx eng + 1) mod recent_cap eng \<and>
         length (recent_cmr eng') = length (recent_cmr eng) \<and>
         baseline eng' = baseline eng \<and> z_threshold eng' = z_threshold eng \<and>
         n eng' = n eng"
proof -
  have i: "unat (recent_idx eng) < length (recent_cmr eng)"
  proof (rule ccontr)
    assume "\<not> unat (recent_idx eng) < length (recent_cmr eng)"
    then have "anomaly_detect eng s = Inl Out_of_bounds"
      using rdy by (simp add: anomaly_detect_def Let_def)
    with d show False by simp
  qed
  have c: "recent_cap eng \<noteq> 0"
  proof
    assume "recent_cap eng = 0"
    then have "anomaly_detect eng s = Inl Division_by_zero"
      using rdy i by (simp add: anomaly_detect_def Let_def)
    with d show False by simp
  qed
  show ?thesis
  proof (cases "detect_oscillation ((recent_cmr eng)[unat (recent_idx eng) := cache_miss_rate s])
                (recent_cap eng) ((recent_idx eng + 1) mod recent_cap eng)")
    case (Inl f)
    then have "anomaly_detect eng s = Inl f"
      using rdy i c by (simp add: anomaly_detect_def Let_def)
    with d show ?thesis by simp
  next
    case (Inr osc)
    then have "\<exists>r. anomaly_detect eng s =
        Inr (eng\<lparr> recent_cmr := (recent_cmr eng)[unat (recent_idx eng) := cache_miss_rate s],
                  recent_idx := (recent_idx eng + 1) mod recent_cap eng,
                  consecutive_anomalies :=
                    (if fp_lt (z_threshold eng)
                          (compute_z (cache_miss_rate s) (mean_cache_miss_rate (baseline eng))
                             (std_cache_miss_rate (baseline eng))) \<or>
                        fp_lt (z_threshold eng)
                          (compute_z (branch_miss_rate s) (mean_branch_miss_rate (baseline eng))
                             (std_branch_miss_rate (baseline eng))) \<or>
                        fp_lt (compute_z (ipc s) (mean_ipc (baseline eng)) (std_ipc (baseline eng)))
                          (fp_neg (z_threshold eng))
                     then consecutive_anomalies eng + 1 else 0) \<rparr>, r)"
      using rdy i c by (simp add: anomaly_detect_def Let_def)
    then obtain r where "anomaly_detect eng s =
        Inr (eng\<lparr> recent_cmr := (recent_cmr eng)[unat (recent_idx eng) := cache_miss_rate s],
                  recent_idx := (recent_idx eng + 1) mod recent_cap eng,
                  consecutive_anomalies :=
                    (if fp_lt (z_threshold eng)
                          (compute_z (cache_miss_rate s) (mean_cache_miss_rate (baseline eng))
                             (std_cache_miss_rate (baseline eng))) \<or>
                        fp_lt (z_threshold eng)
                          (compute_z (branch_miss_rate s) (mean_branch_miss_rate (baseline eng))
                             (std_branch_miss_rate (baseline eng))) \<or>
                        fp_lt (compute_z (ipc s) (mean_ipc (baseline eng)) (std_ipc (baseline eng)))
                          (fp_neg (z_threshold eng))
                     then consecutive_anomalies eng + 1 else 0) \<rparr>, r)" ..
    with d have "eng' = eng\<lparr> recent_cmr := (recent_cmr eng)[unat (recent_idx eng) := cache_miss_rate s],
                  recent_idx := (recent_idx eng + 1) mod recent_cap eng,
                  consecutive_anomalies :=
                    (if fp_lt (z_threshold eng)
                          (compute_z (cache_miss_rate s) (mean_cache_miss_rate (baseline eng))
                             (std_cache_miss_rate (baseline eng))) \<or>
                        fp_lt (z_threshold eng)
                          (compute_z (branch_miss_rate s) (mean_branch_miss_rate (baseline eng))
                             (std_branch_miss_rate (baseline eng))) \<or>
                        fp_lt (compute_z (ipc s) (mean_ipc (baseline eng)) (std_ipc (baseline eng)))
                          (fp_neg (z_threshold eng))
                     then consecutive_anomalies eng + 1 else 0) \<rparr>"
      by simp
    then show ?thesis using c by simp
  qed
qed

lemma engine_wf_detect:
  assumes "engine_wf eng" and "anomaly_detect eng s = Inr (eng', res)"
  shows "engine_wf eng'"
proof (cases "ready (baseline eng)")
  case False
  then show ?thesis using assms by (simp add: anomaly_detect_def)
next
  case True
  from anomaly_detect_Inr_window[OF assms(2) True]
  have w: "recent_cap eng \<noteq> 0" "recent_cap eng' = recent_cap eng"
    "burst_window eng' = burst_window eng"
    "recent_idx eng' = (recent_idx eng + 1) mod recent_cap eng"
    "length (recent_cmr eng') = length (recent_cmr eng)" by simp_all
  have "(recent_idx eng + 1) mod recent_cap eng < recent_cap eng"
    using w(1) by (simp add: word_mod_less_divisor word_greater_zero_iff)
  with w assms(1) show ?thesis by (auto simp: engine_wf_def)
qed

section \<open>Baseline: proofs\<close>

lemma variance_not_negative: "\<not> fp_lt (variance sum2 cnt mean) (Finite 0)"
  by (simp add: variance_def Let_def)

lemma fp_sqrt_clamped:
  assumes "\<not> fp_lt v (Finite 0)"
  shows "fp_sqrt v = NaN \<or> fp_le (Finite 0) (fp_sqrt v)"
  using assms by (cases v) (auto simp: fp_le_def)

lemma fp_sqrt_finite:
  assumes "\<not> fp_lt v (Finite 0)" and "is_finite v"
  shows "\<exists>r\<ge>0. fp_sqrt v = Finite r"
  using assms by (cases v) auto

lemma variance_finite:
  assumes "is_finite sum2" and "is_finite mean" and "c \<noteq> 0"
  shows "is_finite (variance sum2 (Finite c) mean)"
  using assms by (cases sum2; cases mean) (auto simp: variance_def fp_sub_def Let_def)

lemma finalize_idem:
  "anomaly_finalize_baseline (anomaly_finalize_baseline eng) = anomaly_finalize_baseline eng"
  by (simp add: anomaly_finalize_baseline_def Let_def)

lemma finalize_ready:
  "ready (baseline (anomaly_finalize_baseline eng)) \<longleftrightarrow> ready (baseline eng) \<or> n eng \<noteq> 0"
  by (auto simp: anomaly_finalize_baseline_def Let_def word_less_1)

lemma finalize_no_samples: "n eng = 0 \<Longrightarrow> anomaly_finalize_baseline eng = eng"
  by (simp add: anomaly_finalize_baseline_def)

lemma learn_baseline: "baseline (anomaly_learn eng s) = baseline eng"
  by (simp add: anomaly_learn_def Let_def)

lemma detect_baseline:
  assumes "anomaly_detect eng s = Inr (eng', res)"
  shows "baseline eng' = baseline eng"
proof (cases "ready (baseline eng)")
  case True
  from anomaly_detect_Inr_window[OF assms True] show ?thesis by simp
next
  case False
  then show ?thesis using assms by (simp add: anomaly_detect_def)
qed

lemma init_not_ready:
  "map_option (\<lambda>e. ready (baseline e)) (anomaly_init calloc_ok z b) =
     (if calloc_ok then Some False else None)"
  by (simp add: anomaly_init_def zero_baseline_def)

lemma finalize_std:
  assumes "n eng \<noteq> 0"
  defines "b \<equiv> baseline (anomaly_finalize_baseline eng)"
  shows "(std_cache_miss_rate b = NaN \<or> fp_le (Finite 0) (std_cache_miss_rate b)) \<and>
         (std_branch_miss_rate b = NaN \<or> fp_le (Finite 0) (std_branch_miss_rate b)) \<and>
         (std_ipc b = NaN \<or> fp_le (Finite 0) (std_ipc b))"
proof -
  have v: "fp_sqrt (if 2 \<le> n eng
        then variance s2 (fp_of_u64 (n eng)) (fp_div s1 (fp_of_u64 (n eng))) else Finite 0) = NaN \<or>
      fp_le (Finite 0) (fp_sqrt (if 2 \<le> n eng
        then variance s2 (fp_of_u64 (n eng)) (fp_div s1 (fp_of_u64 (n eng))) else Finite 0))"
    for s1 s2
    by (rule fp_sqrt_clamped) (simp add: variance_not_negative)
  show ?thesis
    using assms(1) v[of "sum_cmr2 eng" "sum_cmr eng"] v[of "sum_bmr2 eng" "sum_bmr eng"]
      v[of "sum_ipc2 eng" "sum_ipc eng"] unfolding b_def
    by (simp add: anomaly_finalize_baseline_def Let_def word_less_1)
qed

lemma finalize_std_finite:
  assumes "n eng \<noteq> 0"
    and "is_finite (sum_cmr eng)" "is_finite (sum_cmr2 eng)"
    and "is_finite (sum_bmr eng)" "is_finite (sum_bmr2 eng)"
    and "is_finite (sum_ipc eng)" "is_finite (sum_ipc2 eng)"
  defines "b \<equiv> baseline (anomaly_finalize_baseline eng)"
  shows "(\<exists>r\<ge>0. std_cache_miss_rate b = Finite r) \<and>
         (\<exists>r\<ge>0. std_branch_miss_rate b = Finite r) \<and>
         (\<exists>r\<ge>0. std_ipc b = Finite r)"
proof -
  have c: "real (unat (n eng)) \<noteq> 0" using assms(1) by (simp add: unsigned_eq_0_iff)
  have m: "is_finite (fp_div x (Finite (real (unat (n eng)))))" if "is_finite x" for x
    using that c by (cases x) simp_all
  have v: "\<exists>r\<ge>0. fp_sqrt (if 2 \<le> n eng
        then variance s2 (fp_of_u64 (n eng)) (fp_div s1 (fp_of_u64 (n eng))) else Finite 0) = Finite r"
    if "is_finite s1" "is_finite s2" for s1 s2
  proof (cases "2 \<le> n eng")
    case True
    have "is_finite (variance s2 (Finite (real (unat (n eng)))) (fp_div s1 (Finite (real (unat (n eng))))))"
      by (rule variance_finite[OF that(2) m[OF that(1)] c])
    then show ?thesis
      using True fp_sqrt_finite[OF variance_not_negative] by (simp add: fp_of_u64_def)
  next
    case False
    then show ?thesis by simp
  qed
  show ?thesis
    using assms(1) v[OF assms(2,3)] v[OF assms(4,5)] v[OF assms(6,7)] unfolding b_def
    by (simp add: anomaly_finalize_baseline_def Let_def word_less_1)
qed

section \<open>Composite score: proofs\<close>

lemma anomaly_detect_Inr_scores:
  assumes d: "anomaly_detect eng s = Inr (eng', res)" and rdy: "ready (baseline eng)"
  shows "z_cache_miss res = compute_z (cache_miss_rate s) (mean_cache_miss_rate (baseline eng))
                               (std_cache_miss_rate (baseline eng)) \<and>
         z_branch_miss res = compute_z (branch_miss_rate s) (mean_branch_miss_rate (baseline eng))
                               (std_branch_miss_rate (baseline eng)) \<and>
         z_ipc res = compute_z (ipc s) (mean_ipc (baseline eng)) (std_ipc (baseline eng)) \<and>
         composite_score res =
           (let m = fp_abs (z_cache_miss res);
                m = (if fp_lt m (fp_abs (z_branch_miss res)) then fp_abs (z_branch_miss res) else m);
                m = (if fp_lt m (fp_abs (z_ipc res)) then fp_abs (z_ipc res) else m);
                c = double_sub (Finite 1)
                      (double_div (Finite 1)
                         (double_add (Finite 1) (double_div m (z_threshold eng))));
                c = (if fp_lt (Finite 1) c then Finite 1 else c)
            in if fp_lt c (Finite 0) then Finite 0 else c)"
proof -
  have i: "unat (recent_idx eng) < length (recent_cmr eng)"
  proof (rule ccontr)
    assume "\<not> unat (recent_idx eng) < length (recent_cmr eng)"
    then have "anomaly_detect eng s = Inl Out_of_bounds"
      using rdy by (simp add: anomaly_detect_def Let_def)
    with d show False by simp
  qed
  have c: "recent_cap eng \<noteq> 0"
  proof
    assume "recent_cap eng = 0"
    then have "anomaly_detect eng s = Inl Division_by_zero"
      using rdy i by (simp add: anomaly_detect_def Let_def)
    with d show False by simp
  qed
  show ?thesis
  proof (cases "detect_oscillation ((recent_cmr eng)[unat (recent_idx eng) := cache_miss_rate s])
                (recent_cap eng) ((recent_idx eng + 1) mod recent_cap eng)")
    case (Inl f)
    then have "anomaly_detect eng s = Inl f"
      using rdy i c by (simp add: anomaly_detect_def Let_def)
    with d show ?thesis by simp
  next
    case (Inr osc)
    then have "\<exists>e r. anomaly_detect eng s = Inr (e, r) \<and>
        z_cache_miss r = compute_z (cache_miss_rate s) (mean_cache_miss_rate (baseline eng))
                               (std_cache_miss_rate (baseline eng)) \<and>
        z_branch_miss r = compute_z (branch_miss_rate s) (mean_branch_miss_rate (baseline eng))
                               (std_branch_miss_rate (baseline eng)) \<and>
        z_ipc r = compute_z (ipc s) (mean_ipc (baseline eng)) (std_ipc (baseline eng)) \<and>
        composite_score r =
           (let m = fp_abs (z_cache_miss r);
                m = (if fp_lt m (fp_abs (z_branch_miss r)) then fp_abs (z_branch_miss r) else m);
                m = (if fp_lt m (fp_abs (z_ipc r)) then fp_abs (z_ipc r) else m);
                c = double_sub (Finite 1)
                      (double_div (Finite 1)
                         (double_add (Finite 1) (double_div m (z_threshold eng))));
                c = (if fp_lt (Finite 1) c then Finite 1 else c)
            in if fp_lt c (Finite 0) then Finite 0 else c)"
      using rdy i c by (simp add: anomaly_detect_def Let_def)
    with d show ?thesis by auto
  qed
qed

lemma anomaly_detect_idle:
  "\<not> ready (baseline eng) \<Longrightarrow> anomaly_detect eng s = Inr (eng, zero_result)"
  by (simp add: anomaly_detect_def)

lemma composite_clamped:
  fixes a b c Z :: real
  assumes Z: "0 < Z"
  shows "(let m = fp_abs (Finite a);
              m = (if fp_lt m (fp_abs (Finite b)) then fp_abs (Finite b) else m);
              m = (if fp_lt m (fp_abs (Finite c)) then fp_abs (Finite c) else m);
              c = double_sub (Finite 1)
                    (double_div (Finite 1) (double_add (Finite 1) (double_div m (Finite Z))));
              c = (if fp_lt (Finite 1) c then Finite 1 else c)
          in if fp_lt c (Finite 0) then Finite 0 else c) =
         double_sub (Finite 1) (double_div (Finite 1) (double_add (Finite 1)
           (double_div (Finite (max \<bar>a\<bar> (max \<bar>b\<bar> \<bar>c\<bar>))) (Finite Z))))"
proof -
  define m where "m = max \<bar>a\<bar> (max \<bar>b\<bar> \<bar>c\<bar>)"
  have m0: "0 \<le> m" by (simp add: m_def)
  have e1: "fp_abs (Finite a) = Finite \<bar>a\<bar>" by simp
  have s1: "(if fp_lt (Finite \<bar>a\<bar>) (fp_abs (Finite b)) then fp_abs (Finite b) else Finite \<bar>a\<bar>) =
            Finite (max \<bar>a\<bar> \<bar>b\<bar>)"
    by (simp add: max_def)
  have s2: "(if fp_lt (Finite (max \<bar>a\<bar> \<bar>b\<bar>)) (fp_abs (Finite c)) then fp_abs (Finite c)
             else Finite (max \<bar>a\<bar> \<bar>b\<bar>)) = Finite m"
    by (simp add: m_def max_def)
  from composite_double(1)[OF m0 Z] obtain y where
    y: "double_sub (Finite 1) (double_div (Finite 1) (double_add (Finite 1)
          (double_div (Finite m) (Finite Z)))) = Finite y" and y0: "0 \<le> y" and y1: "y \<le> 1"
    by blast
  have s7: "\<not> fp_lt (Finite 1) (Finite y)" using y1 by simp
  have s8: "\<not> fp_lt (Finite y) (Finite 0)" using y0 by simp
  show ?thesis
    unfolding Let_def e1 s1 s2 m_def[symmetric] y using s7 s8 by (simp only: if_False)
qed

lemma round64_points:
  "round64 (1 / 2) = Finite (1 / 2)" "round64 2 = Finite 2"
  "round64 (- (1 / 2)) = Finite (- (1 / 2))" "round64 (- 1) = Finite (- 1)"
  by (simp_all add: round64_def nearest_half nearest_two nearest_minus_half nearest_minus_one)

lemma composite_facts:
  fixes a b c Z :: real
  assumes Z: "0 < Z"
    and cs: "cs = double_sub (Finite 1) (double_div (Finite 1) (double_add (Finite 1)
                    (double_div (Finite (max \<bar>a\<bar> (max \<bar>b\<bar> \<bar>c\<bar>))) (Finite Z))))"
  shows "fp_le (Finite 0) cs \<and> fp_le cs (Finite 1) \<and>
         (fp_lt (Finite 0) cs \<longrightarrow> a \<noteq> 0 \<or> b \<noteq> 0 \<or> c \<noteq> 0) \<and>
         (max \<bar>a\<bar> (max \<bar>b\<bar> \<bar>c\<bar>) / Z \<le> unit_roundoff \<longrightarrow> cs = Finite 0) \<and>
         (DBL_EPSILON \<le> max \<bar>a\<bar> (max \<bar>b\<bar> \<bar>c\<bar>) / Z \<longrightarrow> fp_lt (Finite 0) cs)"
proof -
  define m where "m = max \<bar>a\<bar> (max \<bar>b\<bar> \<bar>c\<bar>)"
  have m0: "0 \<le> m" by (simp add: m_def)
  note cm = cs[folded m_def]
  from composite_double(1)[OF m0 Z] obtain y where "cs = Finite y" "0 \<le> y" "y \<le> 1"
    unfolding cm by blast
  then have r: "fp_le (Finite 0) cs" "fp_le cs (Finite 1)" by (auto simp: fp_le_def)
  have z: "cs = Finite 0" if "m / Z \<le> unit_roundoff"
    unfolding cm by (rule composite_double(2)[OF m0 Z that])
  have p: "fp_lt (Finite 0) cs" if "DBL_EPSILON \<le> m / Z"
    using composite_double(3)[OF m0 Z that] unfolding cm by auto
  have n: "a \<noteq> 0 \<or> b \<noteq> 0 \<or> c \<noteq> 0" if "fp_lt (Finite 0) cs"
  proof (rule ccontr)
    assume "\<not> (a \<noteq> 0 \<or> b \<noteq> 0 \<or> c \<noteq> 0)"
    then have "m = 0" by (simp add: m_def)
    then have "m / Z \<le> unit_roundoff" using roundoff_pos by simp
    then have "cs = Finite 0" by (rule z)
    with that show False by simp
  qed
  show ?thesis using r z p n unfolding m_def by blast
qed

section \<open>Telemetry sampler: proofs\<close>

lemma derived_ratio:
  fixes a b :: uint64_t
  defines "q \<equiv> (if 0 < b then fp_div (fp_of_u64 a) (fp_of_u64 b) else Finite 0)"
  shows "q = (if b = 0 then Finite 0 else Finite (real (unat a) / real (unat b)))"
    and "fp_le (Finite 0) q"
proof -
  have u: "unat b = 0 \<longleftrightarrow> b = 0" by (rule unsigned_eq_0_iff)
  show q: "q = (if b = 0 then Finite 0 else Finite (real (unat a) / real (unat b)))"
    unfolding q_def by (simp add: fp_of_u64_def unsigned_eq_0_iff word_greater_zero_iff)
  have "0 \<le> real (unat a) / real (unat b)" by (intro divide_nonneg_nonneg of_nat_0_le_iff)
  then show "fp_le (Finite 0) q"
    unfolding q by (auto simp: fp_le_def)
qed

section \<open>Correlation engine: proofs\<close>














section \<open>IPC wire record: proofs\<close>

lemma length_le_bytes: "length (le_bytes k w) = k"
  by (induction k arbitrary: w) simp_all

lemma word_of_le_bytes: "word_of_le (le_bytes k (w :: 'a::len word)) = take_bit (8 * k) w"
proof (induction k arbitrary: w)
  case 0
  then show ?case by simp
next
  case (Suc k)
  show ?case
  proof (rule bit_eqI)
    fix i assume "possible_bit TYPE('a word) i"
    then have il: "i < LENGTH('a)" by (simp add: possible_bit_def)
    show "bit (word_of_le (le_bytes (Suc k) w) :: 'a word) i = bit (take_bit (8 * Suc k) w) i"
    proof (cases "i < 8")
      case True
      then show ?thesis
        using il by (auto simp: Suc.IH bit_or_iff bit_ucast_iff bit_push_bit_iff bit_take_bit_iff
            dest: bit_imp_le_length)
    next
      case False
      then have "8 + (i - 8) = i" by simp
      then show ?thesis
        using il False
        by (auto simp: Suc.IH bit_or_iff bit_ucast_iff bit_push_bit_iff bit_take_bit_iff
            bit_drop_bit_eq dest: bit_imp_le_length)
    qed
  qed
qed

lemma word_of_le_bytes_64: "word_of_le (le_bytes 8 (w :: 64 word)) = w"
  unfolding word_of_le_bytes by (simp add: take_bit_word_eq_self)

lemma word_of_le_bytes_32: "word_of_le (le_bytes 4 (w :: 32 word)) = w"
  unfolding word_of_le_bytes by (simp add: take_bit_word_eq_self)

lemma nth_le_bytes: "i < k \<Longrightarrow> le_bytes k w ! i = ucast (drop_bit (8 * i) w)"
proof (induction k arbitrary: w i)
  case 0
  then show ?case by simp
next
  case (Suc k)
  show ?case
  proof (cases i)
    case 0
    then show ?thesis by simp
  next
    case (Suc j)
    then have "j < k" using Suc.prems by simp
    then show ?thesis
      using Suc.IH[of j "drop_bit 8 w"] Suc by (simp add: add.commute)
  qed
qed

lemma field_at_here:
  "length a = k \<Longrightarrow> field_at 0 k (a @ rest) = word_of_le a"
  by (simp add: field_at_def)

lemma field_at_skip:
  "length a = k \<Longrightarrow> field_at (k + off) l (a @ rest) = field_at off l rest"
  by (simp add: field_at_def)

lemma ipc_datagram_fields:
  "ipc_datagram s =
     le_bytes 8 (timestamp_ns s) @ le_bytes 8 (cache_references s) @
     le_bytes 8 (cache_misses s) @ le_bytes 8 (branch_instructions s) @
     le_bytes 8 (branch_misses s) @ le_bytes 8 (cycles s) @
     le_bytes 8 (instructions s) @ le_bytes 4 (cache_miss_rate s) @
     le_bytes 4 (branch_miss_rate s) @ le_bytes 4 (ipc s)"
  by (simp add: ipc_datagram_def wire_image_def ipc_wire_def)

lemma length_ipc_datagram: "length (ipc_datagram s) = 68"
  unfolding ipc_datagram_fields by (simp add: length_le_bytes)

lemma field_at_datagram:
  "field_at 0 8 (ipc_datagram s) = timestamp_ns s"
  "field_at 8 8 (ipc_datagram s) = cache_references s"
  "field_at 16 8 (ipc_datagram s) = cache_misses s"
  "field_at 24 8 (ipc_datagram s) = branch_instructions s"
  "field_at 32 8 (ipc_datagram s) = branch_misses s"
  "field_at 40 8 (ipc_datagram s) = cycles s"
  "field_at 48 8 (ipc_datagram s) = instructions s"
  "field_at 56 4 (ipc_datagram s) = cache_miss_rate s"
  "field_at 60 4 (ipc_datagram s) = branch_miss_rate s"
  "field_at 64 4 (ipc_datagram s) = ipc s"
  unfolding ipc_datagram_fields field_at_def
  by (simp_all add: length_le_bytes word_of_le_bytes_64 word_of_le_bytes_32)

lemma wire_decode_datagram: "wire_decode (ipc_datagram s) = Some s"
  by (simp add: wire_decode_def length_ipc_datagram field_at_datagram)

section \<open>Claims\<close>

text \<open>
  C1 (as amended). For every requested capacity from 1 to \<open>2^63\<close>, \<open>ringbuffer_init\<close>
  sets the capacity \<open>C\<close> to the least power of two that is at least the request. From the
  buffer it returns, every sequence of pushes and pops returns from every call (no slot outside
  the block is touched) and answers exactly as a first-in first-out queue holding at most
  \<open>C - 1\<close> samples: push returns \<open>false\<close> precisely when \<open>C - 1\<close> samples are queued, pop
  returns \<open>false\<close> precisely when none is, and \<open>ringbuffer_count\<close> is the number queued, so
  it stays in \<open>[0, C - 1]\<close>. Pushing any list of samples and then popping as many times
  returns the first \<open>C - 1\<close> of them, in order; the pushes after those are refused.
\<close>

theorem ringbuffer_bounded_fifo:
  fixes requested :: size_t and cs :: "('f::zero) rb_call list" and ss :: "'f telemetry_sample list"
  assumes "requested \<noteq> 0" and "unat requested \<le> 2 ^ 63"
  shows "(\<exists>k<64. next_power_of_two requested = 2 ^ k \<and> unat requested \<le> 2 ^ k \<and>
              2 ^ k < 2 * unat requested) \<and>
         (\<exists>rb. ringbuffer_init True requested = Some rb \<and>
              capacity rb = next_power_of_two requested \<and>
              (\<exists>rs rb'. rb_run rb cs = Some (rs, rb') \<and>
                  rs = fst (fifo_run (unat (capacity rb) - 1) [] cs) \<and>
                  unat (ringbuffer_count rb') = length (snd (fifo_run (unat (capacity rb) - 1) [] cs)) \<and>
                  unat (ringbuffer_count rb') \<le> unat (capacity rb) - 1)) \<and>
         init_and_run requested (map Push ss @ replicate (length ss) Pop) =
           Some (map (\<lambda>i. Pushed (i < unat (next_power_of_two requested) - 1)) [0 ..< length ss] @
                 map Popped (map Some (take (unat (next_power_of_two requested) - 1) ss) @
                             replicate (length ss - (unat (next_power_of_two requested) - 1)) None))"
  by (intro conjI next_power_of_two_correct[OF assms] rb_run_from_init[OF assms]
      push_then_pop_from_init[OF assms])

text \<open>The theorem at a request of 3 (capacity 4) and four samples.\<close>

theorem ringbuffer_bounded_fifo_witness:
  "(3::size_t) \<noteq> 0 \<and> unat (3::size_t) \<le> 2 ^ 63 \<and>
   init_and_run 3
     [Push (zero_sample\<lparr>timestamp_ns := 1\<rparr>), Push (zero_sample\<lparr>timestamp_ns := 2\<rparr>),
      Push (zero_sample\<lparr>timestamp_ns := 3\<rparr>), Push (zero_sample\<lparr>timestamp_ns := 4\<rparr>),
      Pop, Pop, Pop, Pop] =
   Some [Pushed True, Pushed True, Pushed True, Pushed False,
         Popped (Some (zero_sample\<lparr>timestamp_ns := 1\<rparr> :: real telemetry_sample)),
         Popped (Some (zero_sample\<lparr>timestamp_ns := 2\<rparr>)),
         Popped (Some (zero_sample\<lparr>timestamp_ns := 3\<rparr>)), Popped None]"
proof -
  define a b c d :: "real telemetry_sample" where
    "a = zero_sample\<lparr>timestamp_ns := 1\<rparr>" and "b = zero_sample\<lparr>timestamp_ns := 2\<rparr>" and
    "c = zero_sample\<lparr>timestamp_ns := 3\<rparr>" and "d = zero_sample\<lparr>timestamp_ns := 4\<rparr>"
  have h1: "(3::size_t) \<noteq> 0" by simp
  have h2: "unat (3::size_t) \<le> 2 ^ 63" by simp
  have n: "unat (next_power_of_two 3) - 1 = 3" by (simp add: next_power_of_two_def Let_def)
  have l: "length [a, b, c, d] = 4" by simp
  have u: "map (\<lambda>i. Pushed (i < 3) :: real rb_ret) [0..<4] =
           [Pushed True, Pushed True, Pushed True, Pushed False]"
    by (simp add: upt_rec)
  have tk: "take 3 [a, b, c, d] = [a, b, c]" by (simp add: numeral_3_eq_3)
  have rp: "replicate 4 (Pop :: real rb_call) = [Pop, Pop, Pop, Pop]"
    by (simp add: numeral_eq_Suc)
  have rn: "replicate (4 - 3) (None :: real telemetry_sample option) = [None]" by simp
  from ringbuffer_bounded_fifo[OF h1 h2, where cs = "[]" and ss = "[a, b, c, d]"]
  have "init_and_run 3 (map Push [a, b, c, d] @ replicate (length [a, b, c, d]) Pop) =
           Some (map (\<lambda>i. Pushed (i < unat (next_power_of_two 3) - 1)) [0 ..< length [a, b, c, d]] @
                 map Popped (map Some (take (unat (next_power_of_two 3) - 1) [a, b, c, d]) @
                             replicate (length [a, b, c, d] - (unat (next_power_of_two 3) - 1)) None))"
    by (rule conjunct2[OF conjunct2])
  then have "init_and_run 3 [Push a, Push b, Push c, Push d, Pop, Pop, Pop, Pop] =
      Some [Pushed True, Pushed True, Pushed True, Pushed False,
            Popped (Some a), Popped (Some b), Popped (Some c), Popped None]"
    unfolding n l u tk rp rn by simp
  then show ?thesis using h1 h2 unfolding a_def b_def c_def d_def by (intro conjI)
qed

text \<open>
  C1 as stated fails: a buffer of capacity \<open>C = 2\<close> refuses the second of two pushes, and
  two pops return the first sample and then nothing.
\<close>

theorem ringbuffer_push_C_pop_C_counterexample:
  "next_power_of_two 2 = 2 \<and>
   init_and_run 2
     [Push (zero_sample\<lparr>timestamp_ns := 1\<rparr>), Push (zero_sample\<lparr>timestamp_ns := 2\<rparr>), Pop, Pop] =
   Some [Pushed True, Pushed False,
         Popped (Some (zero_sample\<lparr>timestamp_ns := 1\<rparr> :: real telemetry_sample)), Popped None]"
proof -
  have n: "next_power_of_two 2 = 2" by (simp add: next_power_of_two_def Let_def)
  have u: "unat (2::size_t) = 2" by simp
  have r: "replicate 2 (zero_sample :: real telemetry_sample) = [zero_sample, zero_sample]"
    by (simp add: numeral_2_eq_2)
  have i: "ringbuffer_init True 2 = Some \<lparr> buffer = [zero_sample, zero_sample :: real telemetry_sample],
     capacity = 2, head = 0, tail = 0 \<rparr>"
    unfolding ringbuffer_init_def n Let_def u r by simp
  show ?thesis
    unfolding init_and_run_def i
    by (simp add: n ringbuffer_push_def ringbuffer_pop_def Let_def)
qed

text \<open>
  C10. When \<open>anomaly_detect\<close> is called while the baseline is not \<open>ready\<close>, the result
  is all zero (no flag, the three z-scores, the composite score and the sustained count zero)
  and the engine is returned as it was: window, window index, consecutive-anomaly counter and
  learning accumulators are untouched.
\<close>

theorem anomaly_detect_not_ready:
  assumes "\<not> ready (baseline eng)"
  shows "\<exists>res. anomaly_detect eng s = Inr (eng, res) \<and>
           anomaly_flags res = 0 \<and> z_cache_miss res = Finite 0 \<and> z_branch_miss res = Finite 0 \<and>
           z_ipc res = Finite 0 \<and> composite_score res = Finite 0 \<and> sustained_count res = 0"
  using assms
  by (intro exI[of _ zero_result]) (simp add: anomaly_detect_def zero_result_def zero_fpval_def)

text \<open>The theorem at the engine \<open>anomaly_init\<close> returns, which is not ready.\<close>

theorem anomaly_detect_not_ready_witness:
  "\<exists>eng. anomaly_init True (Finite (7 / 2)) 10 = Some eng \<and> \<not> ready (baseline eng) \<and>
     anomaly_detect eng (ratio_sample (1 / 10) 0 0) =
       Inr (eng, \<lparr> z_cache_miss = Finite 0, z_branch_miss = Finite 0, z_ipc = Finite 0,
                   composite_score = Finite 0, anomaly_flags = 0, sustained_count = 0 \<rparr>)"
proof -
  obtain eng where e: "anomaly_init True (Finite (7 / 2)) 10 = Some eng"
    by (simp add: anomaly_init_def)
  then have nr: "\<not> ready (baseline eng)"
    by (auto simp: anomaly_init_def zero_baseline_def)
  from anomaly_detect_not_ready[OF nr, of "ratio_sample (1 / 10) 0 0"]
  obtain res where r: "anomaly_detect eng (ratio_sample (1 / 10) 0 0) = Inr (eng, res)"
    "anomaly_flags res = 0" "z_cache_miss res = Finite 0" "z_branch_miss res = Finite 0"
    "z_ipc res = Finite 0" "composite_score res = Finite 0" "sustained_count res = 0"
    by blast
  then have "res = \<lparr> z_cache_miss = Finite 0, z_branch_miss = Finite 0, z_ipc = Finite 0,
                   composite_score = Finite 0, anomaly_flags = 0, sustained_count = 0 \<rparr>"
    by (cases res) simp
  with e nr r(1) show ?thesis by blast
qed

text \<open>
  C4. For a sample in the detection phase (baseline ready; an engine of the shape
  \<open>anomaly_init\<close> builds, with a \<open>burst_window\<close> from 1 to \<open>2^31\<close>): the 32-bit counter
  \<open>consecutive_anomalies\<close> is incremented by one if one of the three primary flags fired on
  the sample and is reset to zero otherwise; \<open>BURST_PATTERN\<close> is set exactly when the updated
  counter is at least \<open>burst_window\<close>; and \<open>sustained_count\<close> is the updated counter.
\<close>

theorem burst_tracking:
  assumes "engine_wf eng" and "burst_window eng \<noteq> 0" and "unat (burst_window eng) \<le> 2 ^ 31"
    and "ready (baseline eng)"
  shows "\<exists>eng' res. anomaly_detect eng s = Inr (eng', res) \<and>
      consecutive_anomalies eng' =
        (if anomaly_flags res AND primary_flags \<noteq> 0 then consecutive_anomalies eng + 1 else 0) \<and>
      (anomaly_flags res AND ANOMALY_BURST_PATTERN \<noteq> 0 \<longleftrightarrow>
         burst_window eng \<le> consecutive_anomalies eng') \<and>
      sustained_count res = consecutive_anomalies eng'"
proof -
  from anomaly_detect_ready[OF assms, of s] obtain eng' res a1 a2 a3 b osc where
    d: "anomaly_detect eng s = Inr (eng', res)"
    and c: "consecutive_anomalies eng' = (if a1 \<or> a2 \<or> a3 then consecutive_anomalies eng + 1 else 0)"
    and b: "b = ((a1 \<or> a2 \<or> a3) \<and> burst_window eng \<le> consecutive_anomalies eng')"
    and su: "sustained_count res = consecutive_anomalies eng'"
    and f: "anomaly_flags res =
        (if a1 then ANOMALY_CACHE_MISS_SPIKE else 0) OR (if a2 then ANOMALY_BRANCH_MISS_SPIKE else 0)
        OR (if a3 then ANOMALY_IPC_COLLAPSE else 0)
        OR (if b then ANOMALY_BURST_PATTERN else 0)
        OR (if osc then ANOMALY_OSCILLATION else 0)"
    by blast
  have p: "anomaly_flags res AND primary_flags \<noteq> 0 \<longleftrightarrow> a1 \<or> a2 \<or> a3"
    unfolding f by (rule flag_bits(1))
  have q: "anomaly_flags res AND ANOMALY_BURST_PATTERN \<noteq> 0 \<longleftrightarrow> b"
    unfolding f by (rule flag_bits(2))
  have r: "b \<longleftrightarrow> burst_window eng \<le> consecutive_anomalies eng'"
  proof (cases "a1 \<or> a2 \<or> a3")
    case True
    then show ?thesis using b by simp
  next
    case False
    then have "consecutive_anomalies eng' = 0" using c by simp
    moreover have "\<not> burst_window eng \<le> 0" using assms(2) by simp
    ultimately show ?thesis using b False by simp
  qed
  show ?thesis
    using d c su p q r by (intro exI[of _ eng'] exI[of _ res]) simp
qed

text \<open>
  The theorem at a window of 2 with one earlier anomaly counted and a sample whose cache-miss
  rate lies 9 standard deviations above the mean.
\<close>

theorem burst_tracking_witness:
  "engine_wf (detecting_engine 2 [Finite 1, Finite 1] 1 1) \<and>
   burst_window (detecting_engine 2 [Finite 1, Finite 1] 1 1) \<noteq> 0 \<and>
   unat (burst_window (detecting_engine 2 [Finite 1, Finite 1] 1 1)) \<le> 2 ^ 31 \<and>
   ready (baseline (detecting_engine 2 [Finite 1, Finite 1] 1 1)) \<and>
   (\<exists>eng' res. anomaly_detect (detecting_engine 2 [Finite 1, Finite 1] 1 1) (ratio_sample 10 1 2) =
        Inr (eng', res) \<and>
      consecutive_anomalies eng' = 2 \<and> sustained_count res = 2 \<and>
      anomaly_flags res = ANOMALY_CACHE_MISS_SPIKE OR ANOMALY_BURST_PATTERN)"
proof -
  define E where "E = detecting_engine 2 [Finite 1, Finite 1] 1 1"
  have h1: "engine_wf E" by (simp add: E_def engine_wf_def detecting_engine_def)
  have h2: "burst_window E \<noteq> 0" by (simp add: E_def detecting_engine_def)
  have h3: "unat (burst_window E) \<le> 2 ^ 31" by (simp add: E_def detecting_engine_def)
  have h4: "ready (baseline E)" by (simp add: E_def detecting_engine_def)
  from burst_tracking[OF h1 h2 h3 h4, of "ratio_sample 10 1 2"] obtain eng' res where
    d: "anomaly_detect E (ratio_sample 10 1 2) = Inr (eng', res)"
    and c: "consecutive_anomalies eng' =
        (if anomaly_flags res AND primary_flags \<noteq> 0 then consecutive_anomalies E + 1 else 0)"
    and s: "sustained_count res = consecutive_anomalies eng'"
    by blast
  have "\<exists>cs. anomaly_detect E (ratio_sample 10 1 2) =
      Inr (E\<lparr> recent_cmr := [Finite 1, Finite 10], recent_idx := 0, consecutive_anomalies := 2 \<rparr>,
           \<lparr> z_cache_miss = Finite 9, z_branch_miss = Finite 0, z_ipc = Finite 0,
             composite_score = cs,
             anomaly_flags = ANOMALY_CACHE_MISS_SPIKE OR ANOMALY_BURST_PATTERN,
             sustained_count = 2 \<rparr>)"
    by (simp add: E_def anomaly_detect_def detecting_engine_def ratio_sample_def zero_sample_def
        compute_z_def fp_sub_def detect_oscillation_def Let_def
        ANOMALY_CACHE_MISS_SPIKE_def ANOMALY_BURST_PATTERN_def)
  with d have f: "anomaly_flags res = ANOMALY_CACHE_MISS_SPIKE OR ANOMALY_BURST_PATTERN" by auto
  have "anomaly_flags res AND primary_flags \<noteq> 0"
    unfolding f by (simp add: primary_flags_def ANOMALY_CACHE_MISS_SPIKE_def
        ANOMALY_BRANCH_MISS_SPIKE_def ANOMALY_IPC_COLLAPSE_def ANOMALY_BURST_PATTERN_def)
  with c have "consecutive_anomalies eng' = 2" by (simp add: E_def detecting_engine_def)
  with d s f h1 h2 h3 h4 show ?thesis unfolding E_def by auto
qed

text \<open>
  C5 (as amended). For a sample in the detection phase (same engines as in C4), after the
  current cache-miss rate is written into the circular window: for a window of at least 4
  slots \<open>OSCILLATION\<close> is set exactly when the number of sign changes in the first
  difference of the window, oldest sample first, is at least half the window size (integer
  division), zero differences neither counting as a change nor replacing the previous
  direction; for a window of fewer than 4 slots \<open>OSCILLATION\<close> is never set.
\<close>

theorem oscillation_flag:
  assumes "engine_wf eng" and "burst_window eng \<noteq> 0" and "unat (burst_window eng) \<le> 2 ^ 31"
    and "ready (baseline eng)"
  shows "\<exists>eng' res. anomaly_detect eng s = Inr (eng', res) \<and>
      recent_cmr eng' = (recent_cmr eng)[unat (recent_idx eng) := cache_miss_rate s] \<and>
      recent_idx eng' = (recent_idx eng + 1) mod recent_cap eng \<and>
      (anomaly_flags res AND ANOMALY_OSCILLATION \<noteq> 0 \<longleftrightarrow>
         4 \<le> burst_window eng \<and> oscillating (recent_cmr eng') (unat (recent_idx eng')))"
proof -
  from anomaly_detect_ready[OF assms, of s] obtain eng' res a1 a2 a3 b osc where
    d: "anomaly_detect eng s = Inr (eng', res)"
    and o: "osc = (4 \<le> recent_cap eng \<and> oscillating (recent_cmr eng') (unat (recent_idx eng')))"
    and w: "recent_cmr eng' = (recent_cmr eng)[unat (recent_idx eng) := cache_miss_rate s]"
      "recent_idx eng' = (recent_idx eng + 1) mod recent_cap eng"
    and f: "anomaly_flags res =
        (if a1 then ANOMALY_CACHE_MISS_SPIKE else 0) OR (if a2 then ANOMALY_BRANCH_MISS_SPIKE else 0)
        OR (if a3 then ANOMALY_IPC_COLLAPSE else 0)
        OR (if b then ANOMALY_BURST_PATTERN else 0)
        OR (if osc then ANOMALY_OSCILLATION else 0)"
    by blast
  have q: "anomaly_flags res AND ANOMALY_OSCILLATION \<noteq> 0 \<longleftrightarrow> osc"
    unfolding f by (rule flag_bits(3))
  have "unat (recent_cap eng) = unat (burst_window eng)"
    using assms(1) by (simp add: engine_wf_def unat_ucast_32_64)
  then have c: "4 \<le> recent_cap eng \<longleftrightarrow> 4 \<le> burst_window eng"
    by (simp add: word_le_nat_alt)
  show ?thesis
    using d w q o c by (intro exI[of _ eng'] exI[of _ res]) simp
qed

text \<open>The window 1, 2, 1, 2 changes direction twice.\<close>

lemma oscillating_example: "oscillating [Finite 1, Finite 2, Finite 1, Finite 2] 0"
  by (simp add: oscillating_def window_oldest_first_def sign_changes_def direction_def fp_sub_def)

text \<open>The theorem at a window of 4 that the sample completes to 1, 2, 1, 2.\<close>

theorem oscillation_flag_witness:
  "engine_wf (detecting_engine 4 [Finite 1, Finite 2, Finite 1, Finite 0] 3 0) \<and>
   burst_window (detecting_engine 4 [Finite 1, Finite 2, Finite 1, Finite 0] 3 0) \<noteq> 0 \<and>
   unat (burst_window (detecting_engine 4 [Finite 1, Finite 2, Finite 1, Finite 0] 3 0)) \<le> 2 ^ 31 \<and>
   ready (baseline (detecting_engine 4 [Finite 1, Finite 2, Finite 1, Finite 0] 3 0)) \<and>
   (\<exists>eng' res. anomaly_detect (detecting_engine 4 [Finite 1, Finite 2, Finite 1, Finite 0] 3 0)
         (ratio_sample 2 1 2) = Inr (eng', res) \<and>
      recent_cmr eng' = [Finite 1, Finite 2, Finite 1, Finite 2] \<and> recent_idx eng' = 0 \<and>
      anomaly_flags res AND ANOMALY_OSCILLATION \<noteq> 0)"
proof -
  define E where "E = detecting_engine 4 [Finite 1, Finite 2, Finite 1, Finite 0] 3 0"
  have h1: "engine_wf E" by (simp add: E_def engine_wf_def detecting_engine_def)
  have h2: "burst_window E \<noteq> 0" by (simp add: E_def detecting_engine_def)
  have h3: "unat (burst_window E) \<le> 2 ^ 31" by (simp add: E_def detecting_engine_def)
  have h4: "ready (baseline E)" by (simp add: E_def detecting_engine_def)
  from oscillation_flag[OF h1 h2 h3 h4, of "ratio_sample 2 1 2"] obtain eng' res where
    d: "anomaly_detect E (ratio_sample 2 1 2) = Inr (eng', res)"
    and w: "recent_cmr eng' = (recent_cmr E)[unat (recent_idx E) := cache_miss_rate (ratio_sample 2 1 2)]"
      "recent_idx eng' = (recent_idx E + 1) mod recent_cap E"
    and f: "anomaly_flags res AND ANOMALY_OSCILLATION \<noteq> 0 \<longleftrightarrow>
         4 \<le> burst_window E \<and> oscillating (recent_cmr eng') (unat (recent_idx eng'))"
    by blast
  have w1: "recent_cmr eng' = [Finite 1, Finite 2, Finite 1, Finite 2]"
    unfolding w by (simp add: E_def detecting_engine_def ratio_sample_def)
  have w2: "recent_idx eng' = 0"
    unfolding w by (simp add: E_def detecting_engine_def)
  have "4 \<le> burst_window E" by (simp add: E_def detecting_engine_def)
  then have "anomaly_flags res AND ANOMALY_OSCILLATION \<noteq> 0"
    unfolding f w1 w2 using oscillating_example by simp
  with d w1 w2 h1 h2 h3 h4 show ?thesis unfolding E_def by blast
qed

text \<open>
  C5 as stated fails for a window of 3: the window 1, 2, 1 has one sign change, which is at
  least \<open>3 / 2 = 1\<close>, and \<open>OSCILLATION\<close> is not set.
\<close>

theorem oscillation_small_window_counterexample:
  "oscillating [Finite 1, Finite 2, Finite 1] 0 \<and>
   anomaly_detect (detecting_engine 3 [Finite 1, Finite 2, Finite 0] 2 0) (ratio_sample 1 1 2) =
     Inr (detecting_engine 3 [Finite 1, Finite 2, Finite 1] 0 0,
          \<lparr> z_cache_miss = Finite 0, z_branch_miss = Finite 0, z_ipc = Finite 0,
            composite_score = Finite 0, anomaly_flags = 0, sustained_count = 0 \<rparr>)"
proof (rule conjI)
  show "oscillating [Finite 1, Finite 2, Finite 1] 0"
    by (simp add: oscillating_def window_oldest_first_def sign_changes_def direction_def fp_sub_def)
  show "anomaly_detect (detecting_engine 3 [Finite 1, Finite 2, Finite 0] 2 0) (ratio_sample 1 1 2) =
     Inr (detecting_engine 3 [Finite 1, Finite 2, Finite 1] 0 0,
          \<lparr> z_cache_miss = Finite 0, z_branch_miss = Finite 0, z_ipc = Finite 0,
            composite_score = Finite 0, anomaly_flags = 0, sustained_count = 0 \<rparr>)"
    by (simp add: anomaly_detect_def detecting_engine_def ratio_sample_def zero_sample_def
        compute_z_def fp_sub_def detect_oscillation_def Let_def
        double_div_finite double_add_finite double_sub_finite round64_zero round64_one)
qed

text \<open>
  C6. For every PMU delta reading, the sample \<open>compute_derived\<close> builds has
  \<open>cache_miss_rate = cache_misses / instructions\<close>,
  \<open>branch_miss_rate = branch_misses / branch_instructions\<close> and \<open>ipc = instructions / cycles\<close>,
  each ratio being exactly zero when its denominator is zero, and the three ratios are at
  least zero. The sample \<open>sampling_loop\<close> pushes for a tick carries these ratios of the
  delta of the two readings.
\<close>

theorem derived_ratios:
  "cache_miss_rate (compute_derived s r) =
     (if pmu_reading.instructions r = 0 then Finite 0
      else Finite (real (unat (pmu_reading.cache_misses r)) /
                   real (unat (pmu_reading.instructions r)))) \<and>
   branch_miss_rate (compute_derived s r) =
     (if pmu_reading.branch_instructions r = 0 then Finite 0
      else Finite (real (unat (pmu_reading.branch_misses r)) /
                   real (unat (pmu_reading.branch_instructions r)))) \<and>
   ipc (compute_derived s r) =
     (if pmu_reading.cycles r = 0 then Finite 0
      else Finite (real (unat (pmu_reading.instructions r)) /
                   real (unat (pmu_reading.cycles r)))) \<and>
   fp_le (Finite 0) (cache_miss_rate (compute_derived s r)) \<and>
   fp_le (Finite 0) (branch_miss_rate (compute_derived s r)) \<and>
   fp_le (Finite 0) (ipc (compute_derived s r)) \<and>
   cache_miss_rate (tick_sample now cur prev) =
     cache_miss_rate (compute_derived s (pmu_delta cur prev)) \<and>
   branch_miss_rate (tick_sample now cur prev) =
     branch_miss_rate (compute_derived s (pmu_delta cur prev)) \<and>
   ipc (tick_sample now cur prev) = ipc (compute_derived s (pmu_delta cur prev))"
proof -
  have f: "cache_miss_rate (compute_derived s r) =
      (if 0 < pmu_reading.instructions r
       then fp_div (fp_of_u64 (pmu_reading.cache_misses r)) (fp_of_u64 (pmu_reading.instructions r))
       else Finite 0)"
    "branch_miss_rate (compute_derived s r) =
      (if 0 < pmu_reading.branch_instructions r
       then fp_div (fp_of_u64 (pmu_reading.branch_misses r))
                   (fp_of_u64 (pmu_reading.branch_instructions r))
       else Finite 0)"
    "ipc (compute_derived s r) =
      (if 0 < pmu_reading.cycles r
       then fp_div (fp_of_u64 (pmu_reading.instructions r)) (fp_of_u64 (pmu_reading.cycles r))
       else Finite 0)"
    by (simp_all add: compute_derived_def)
  have t: "cache_miss_rate (tick_sample now cur prev) =
           cache_miss_rate (compute_derived s (pmu_delta cur prev))"
    "branch_miss_rate (tick_sample now cur prev) =
           branch_miss_rate (compute_derived s (pmu_delta cur prev))"
    "ipc (tick_sample now cur prev) = ipc (compute_derived s (pmu_delta cur prev))"
    by (simp_all add: tick_sample_def compute_derived_def)
  show ?thesis
    unfolding f by (intro conjI derived_ratio t)
qed

text \<open>
  C7. The \<open>ready\<close> flag is false after \<open>anomaly_init\<close>; \<open>anomaly_learn\<close> and
  \<open>anomaly_detect\<close> leave the baseline as it is; \<open>anomaly_finalize_baseline\<close> sets the flag
  when at least one sample was learnt (\<open>n\<close> is not zero) and changes nothing otherwise: so
  the flag goes from false to true at the finalization that follows a learning phase with at
  least one sample, and no operation takes it back. Each variance computed at finalization is
  clamped (it is never below zero when the square root is taken), so each standard deviation
  is at least zero, or NaN when the sums are not numbers; it is a finite number at least zero
  when the sums are finite. Finalizing twice gives what finalizing once gives.
\<close>

theorem baseline_ready_latch:
  "map_option (\<lambda>e. ready (baseline e)) (anomaly_init calloc_ok z b) =
     (if calloc_ok then Some False else None) \<and>
   baseline (anomaly_learn eng s) = baseline eng \<and>
   (anomaly_detect eng s = Inr (eng', res) \<longrightarrow> baseline eng' = baseline eng) \<and>
   (ready (baseline (anomaly_finalize_baseline eng)) \<longleftrightarrow> ready (baseline eng) \<or> n eng \<noteq> 0) \<and>
   (n eng = 0 \<longrightarrow> anomaly_finalize_baseline eng = eng) \<and>
   (2 \<le> n eng \<longrightarrow>
      std_cache_miss_rate (baseline (anomaly_finalize_baseline eng)) =
        fp_sqrt (variance (sum_cmr2 eng) (fp_of_u64 (n eng))
                   (mean_cache_miss_rate (baseline (anomaly_finalize_baseline eng)))) \<and>
      std_branch_miss_rate (baseline (anomaly_finalize_baseline eng)) =
        fp_sqrt (variance (sum_bmr2 eng) (fp_of_u64 (n eng))
                   (mean_branch_miss_rate (baseline (anomaly_finalize_baseline eng)))) \<and>
      std_ipc (baseline (anomaly_finalize_baseline eng)) =
        fp_sqrt (variance (sum_ipc2 eng) (fp_of_u64 (n eng))
                   (mean_ipc (baseline (anomaly_finalize_baseline eng))))) \<and>
   \<not> fp_lt (variance sum2 cnt mean) (Finite 0) \<and>
   (n eng \<noteq> 0 \<longrightarrow>
      (std_cache_miss_rate (baseline (anomaly_finalize_baseline eng)) = NaN \<or>
       fp_le (Finite 0) (std_cache_miss_rate (baseline (anomaly_finalize_baseline eng)))) \<and>
      (std_branch_miss_rate (baseline (anomaly_finalize_baseline eng)) = NaN \<or>
       fp_le (Finite 0) (std_branch_miss_rate (baseline (anomaly_finalize_baseline eng)))) \<and>
      (std_ipc (baseline (anomaly_finalize_baseline eng)) = NaN \<or>
       fp_le (Finite 0) (std_ipc (baseline (anomaly_finalize_baseline eng))))) \<and>
   (n eng \<noteq> 0 \<and> is_finite (sum_cmr eng) \<and> is_finite (sum_cmr2 eng) \<and>
    is_finite (sum_bmr eng) \<and> is_finite (sum_bmr2 eng) \<and>
    is_finite (sum_ipc eng) \<and> is_finite (sum_ipc2 eng) \<longrightarrow>
      (\<exists>r\<ge>0. std_cache_miss_rate (baseline (anomaly_finalize_baseline eng)) = Finite r) \<and>
      (\<exists>r\<ge>0. std_branch_miss_rate (baseline (anomaly_finalize_baseline eng)) = Finite r) \<and>
      (\<exists>r\<ge>0. std_ipc (baseline (anomaly_finalize_baseline eng)) = Finite r)) \<and>
   anomaly_finalize_baseline (anomaly_finalize_baseline eng) = anomaly_finalize_baseline eng"
proof (intro conjI impI)
  show "map_option (\<lambda>e. ready (baseline e)) (anomaly_init calloc_ok z b) =
     (if calloc_ok then Some False else None)" by (rule init_not_ready)
  show "baseline (anomaly_learn eng s) = baseline eng" by (rule learn_baseline)
  show "baseline eng' = baseline eng" if "anomaly_detect eng s = Inr (eng', res)"
    using that by (rule detect_baseline)
  show "ready (baseline (anomaly_finalize_baseline eng)) \<longleftrightarrow> ready (baseline eng) \<or> n eng \<noteq> 0"
    by (rule finalize_ready)
  show "anomaly_finalize_baseline eng = eng" if "n eng = 0"
    using that by (rule finalize_no_samples)
  show "\<not> fp_lt (variance sum2 cnt mean) (Finite 0)" by (rule variance_not_negative)
  show "anomaly_finalize_baseline (anomaly_finalize_baseline eng) = anomaly_finalize_baseline eng"
    by (rule finalize_idem)
next
  assume two: "2 \<le> n eng"
  have "n eng \<noteq> 0"
  proof
    assume "n eng = 0"
    with two have "(2::size_t) \<le> 0" by simp
    then show False by simp
  qed
  then have "\<not> n eng < 1" by (simp add: word_less_1)
  with two show
    "std_cache_miss_rate (baseline (anomaly_finalize_baseline eng)) =
        fp_sqrt (variance (sum_cmr2 eng) (fp_of_u64 (n eng))
                   (mean_cache_miss_rate (baseline (anomaly_finalize_baseline eng))))"
    "std_branch_miss_rate (baseline (anomaly_finalize_baseline eng)) =
        fp_sqrt (variance (sum_bmr2 eng) (fp_of_u64 (n eng))
                   (mean_branch_miss_rate (baseline (anomaly_finalize_baseline eng))))"
    "std_ipc (baseline (anomaly_finalize_baseline eng)) =
        fp_sqrt (variance (sum_ipc2 eng) (fp_of_u64 (n eng))
                   (mean_ipc (baseline (anomaly_finalize_baseline eng))))"
    by (simp_all add: anomaly_finalize_baseline_def Let_def)
next
  assume n0: "n eng \<noteq> 0"
  from finalize_std[OF n0] show
    "std_cache_miss_rate (baseline (anomaly_finalize_baseline eng)) = NaN \<or>
       fp_le (Finite 0) (std_cache_miss_rate (baseline (anomaly_finalize_baseline eng)))"
    "std_branch_miss_rate (baseline (anomaly_finalize_baseline eng)) = NaN \<or>
       fp_le (Finite 0) (std_branch_miss_rate (baseline (anomaly_finalize_baseline eng)))"
    "std_ipc (baseline (anomaly_finalize_baseline eng)) = NaN \<or>
       fp_le (Finite 0) (std_ipc (baseline (anomaly_finalize_baseline eng)))"
    by simp_all
next
  assume a: "n eng \<noteq> 0 \<and> is_finite (sum_cmr eng) \<and> is_finite (sum_cmr2 eng) \<and>
    is_finite (sum_bmr eng) \<and> is_finite (sum_bmr2 eng) \<and>
    is_finite (sum_ipc eng) \<and> is_finite (sum_ipc2 eng)"
  then have "(\<exists>r\<ge>0. std_cache_miss_rate (baseline (anomaly_finalize_baseline eng)) = Finite r) \<and>
      (\<exists>r\<ge>0. std_branch_miss_rate (baseline (anomaly_finalize_baseline eng)) = Finite r) \<and>
      (\<exists>r\<ge>0. std_ipc (baseline (anomaly_finalize_baseline eng)) = Finite r)"
    by (intro finalize_std_finite) simp_all
  then show "\<exists>r\<ge>0. std_cache_miss_rate (baseline (anomaly_finalize_baseline eng)) = Finite r"
    "\<exists>r\<ge>0. std_branch_miss_rate (baseline (anomaly_finalize_baseline eng)) = Finite r"
    "\<exists>r\<ge>0. std_ipc (baseline (anomaly_finalize_baseline eng)) = Finite r"
    by simp_all
qed

text \<open>
  The theorem at the engine \<open>anomaly_init\<close> returns (no sample), at that engine after two
  learning samples, and at a detection call.
\<close>

theorem baseline_ready_latch_witness:
  "(\<exists>e0. anomaly_init True (Finite (7 / 2)) 2 = Some e0 \<and> n e0 = 0 \<and>
      \<not> ready (baseline e0) \<and> anomaly_finalize_baseline e0 = e0 \<and>
      n (anomaly_learn (anomaly_learn e0 (ratio_sample 0 0 1)) (ratio_sample 2 2 3)) \<noteq> 0 \<and>
      \<not> ready (baseline (anomaly_learn (anomaly_learn e0 (ratio_sample 0 0 1)) (ratio_sample 2 2 3))) \<and>
      ready (baseline (anomaly_finalize_baseline
                (anomaly_learn (anomaly_learn e0 (ratio_sample 0 0 1)) (ratio_sample 2 2 3)))) \<and>
      (\<exists>r\<ge>0. std_cache_miss_rate (baseline (anomaly_finalize_baseline
                (anomaly_learn (anomaly_learn e0 (ratio_sample 0 0 1)) (ratio_sample 2 2 3)))) = Finite r)) \<and>
   (\<exists>eng' res. anomaly_detect (detecting_engine 2 [Finite 1, Finite 1] 1 1) (ratio_sample 10 1 2) =
        Inr (eng', res) \<and>
      baseline eng' = baseline (detecting_engine 2 [Finite 1, Finite 1] 1 1))"
proof (rule conjI)
  define e0 where "e0 = \<lparr> baseline = zero_baseline, z_threshold = Finite (7 / 2), burst_window = 2,
                  sum_cmr = 0, sum_cmr2 = 0, sum_bmr = 0, sum_bmr2 = 0,
                  sum_ipc = 0, sum_ipc2 = 0, n = 0,
                  consecutive_anomalies = 0,
                  recent_cmr = replicate (unat (2 :: uint32_t)) 0,
                  recent_idx = 0, recent_cap = ucast (2 :: uint32_t) \<rparr>"
  define le where "le = anomaly_learn (anomaly_learn e0 (ratio_sample 0 0 1)) (ratio_sample 2 2 3)"
  have i: "anomaly_init True (Finite (7 / 2)) 2 = Some e0"
    by (simp add: anomaly_init_def e0_def)
  have n0: "n e0 = 0" and nr0: "\<not> ready (baseline e0)"
    by (simp_all add: e0_def zero_baseline_def)
  have nl: "n le \<noteq> 0" and nrl: "\<not> ready (baseline le)"
    by (simp_all add: le_def e0_def anomaly_learn_def Let_def zero_baseline_def)
  have fin: "n le \<noteq> 0 \<and> is_finite (sum_cmr le) \<and> is_finite (sum_cmr2 le) \<and>
    is_finite (sum_bmr le) \<and> is_finite (sum_bmr2 le) \<and>
    is_finite (sum_ipc le) \<and> is_finite (sum_ipc2 le)"
    by (simp add: le_def e0_def anomaly_learn_def Let_def ratio_sample_def zero_sample_def
        zero_fpval_def)
  note t0 = baseline_ready_latch[where eng = e0]
  note tl = baseline_ready_latch[where eng = le]
  have f0: "anomaly_finalize_baseline e0 = e0" using t0 n0 by blast
  have rl: "ready (baseline (anomaly_finalize_baseline le))" using tl nl by blast
  have sl: "\<exists>r\<ge>0. std_cache_miss_rate (baseline (anomaly_finalize_baseline le)) = Finite r"
    using tl fin by blast
  show "\<exists>e0. anomaly_init True (Finite (7 / 2)) 2 = Some e0 \<and> n e0 = 0 \<and>
      \<not> ready (baseline e0) \<and> anomaly_finalize_baseline e0 = e0 \<and>
      n (anomaly_learn (anomaly_learn e0 (ratio_sample 0 0 1)) (ratio_sample 2 2 3)) \<noteq> 0 \<and>
      \<not> ready (baseline (anomaly_learn (anomaly_learn e0 (ratio_sample 0 0 1)) (ratio_sample 2 2 3))) \<and>
      ready (baseline (anomaly_finalize_baseline
                (anomaly_learn (anomaly_learn e0 (ratio_sample 0 0 1)) (ratio_sample 2 2 3)))) \<and>
      (\<exists>r\<ge>0. std_cache_miss_rate (baseline (anomaly_finalize_baseline
                (anomaly_learn (anomaly_learn e0 (ratio_sample 0 0 1)) (ratio_sample 2 2 3)))) = Finite r)"
    using i n0 nr0 f0 nl nrl rl sl unfolding le_def by (intro exI[of _ e0] conjI)
next
  define E where "E = detecting_engine 2 [Finite 1, Finite 1] 1 1"
  have "\<exists>cs. anomaly_detect E (ratio_sample 10 1 2) =
      Inr (E\<lparr> recent_cmr := [Finite 1, Finite 10], recent_idx := 0, consecutive_anomalies := 2 \<rparr>,
           \<lparr> z_cache_miss = Finite 9, z_branch_miss = Finite 0, z_ipc = Finite 0,
             composite_score = cs,
             anomaly_flags = ANOMALY_CACHE_MISS_SPIKE OR ANOMALY_BURST_PATTERN,
             sustained_count = 2 \<rparr>)"
    by (simp add: E_def anomaly_detect_def detecting_engine_def ratio_sample_def zero_sample_def
        compute_z_def fp_sub_def detect_oscillation_def Let_def
        ANOMALY_CACHE_MISS_SPIKE_def ANOMALY_BURST_PATTERN_def)
  then obtain cs where d: "anomaly_detect E (ratio_sample 10 1 2) =
      Inr (E\<lparr> recent_cmr := [Finite 1, Finite 10], recent_idx := 0, consecutive_anomalies := 2 \<rparr>,
           \<lparr> z_cache_miss = Finite 9, z_branch_miss = Finite 0, z_ipc = Finite 0,
             composite_score = cs,
             anomaly_flags = ANOMALY_CACHE_MISS_SPIKE OR ANOMALY_BURST_PATTERN,
             sustained_count = 2 \<rparr>)" ..
  from baseline_ready_latch[where eng = E and s = "ratio_sample 10 1 2"
      and eng' = "E\<lparr> recent_cmr := [Finite 1, Finite 10], recent_idx := 0, consecutive_anomalies := 2 \<rparr>"
      and res = "\<lparr> z_cache_miss = Finite 9, z_branch_miss = Finite 0, z_ipc = Finite 0,
             composite_score = cs,
             anomaly_flags = ANOMALY_CACHE_MISS_SPIKE OR ANOMALY_BURST_PATTERN,
             sustained_count = 2 \<rparr>"] d
  have "baseline (E\<lparr> recent_cmr := [Finite 1, Finite 10], recent_idx := 0,
                      consecutive_anomalies := 2 \<rparr>) = baseline E"
    by blast
  with d show "\<exists>eng' res. anomaly_detect (detecting_engine 2 [Finite 1, Finite 1] 1 1) (ratio_sample 10 1 2) =
        Inr (eng', res) \<and>
      baseline eng' = baseline (detecting_engine 2 [Finite 1, Finite 1] 1 1)"
    unfolding E_def by blast
qed



text \<open>
  C9. The datagram \<open>ipc_socket_send\<close> passes to \<open>send\<close> for a sample is 68 bytes long: the seven
  64-bit counters \<open>timestamp_ns\<close>, \<open>cache_references\<close>, \<open>cache_misses\<close>,
  \<open>branch_instructions\<close>, \<open>branch_misses\<close>, \<open>cycles\<close>, \<open>instructions\<close> in this order, then the
  three 32-bit floats \<open>cache_miss_rate\<close>, \<open>branch_miss_rate\<close>, \<open>ipc\<close>, every field least
  significant byte first (the word \<open>0x0A0B0C0D\<close> is sent as \<open>0D 0C 0B 0A\<close>) and nothing between
  the fields. Decoding the datagram gives back the sample, bit for bit, and encoding the decoded
  sample gives the same 68 bytes.
\<close>

theorem wire_record_round_trip:
  "length (ipc_datagram s) = 68 \<and>
   ipc_datagram s =
     le_bytes 8 (timestamp_ns s) @ le_bytes 8 (cache_references s) @
     le_bytes 8 (cache_misses s) @ le_bytes 8 (branch_instructions s) @
     le_bytes 8 (branch_misses s) @ le_bytes 8 (cycles s) @
     le_bytes 8 (instructions s) @ le_bytes 4 (cache_miss_rate s) @
     le_bytes 4 (branch_miss_rate s) @ le_bytes 4 (ipc s) \<and>
   le_bytes 4 (0x0A0B0C0D :: 32 word) = [0x0D, 0x0C, 0x0B, 0x0A] \<and>
   wire_decode (ipc_datagram s) = Some s \<and>
   map_option ipc_datagram (wire_decode (ipc_datagram s)) = Some (ipc_datagram s)"
proof -
  have n4: "(4::nat) = Suc (Suc (Suc (Suc 0)))" by simp
  have "le_bytes 4 (0x0A0B0C0D :: 32 word) = [0x0D, 0x0C, 0x0B, 0x0A]"
    unfolding n4 le_bytes.simps by (simp add: drop_bit_eq_div)
  then show ?thesis
    using length_ipc_datagram[of s] ipc_datagram_fields[of s] wire_decode_datagram[of s]
    by simp
qed

text \<open>
  C3 (as amended). For a sample given to an engine with a finite threshold \<open>Z > 0\<close> (same
  engines as in C4, ready or not), a result exists, and when its three z-scores are finite,
  with \<open>m\<close> the largest of their absolute values: the composite score is
  \<open>1 - 1 / (1 + m / Z)\<close> evaluated in \<open>double\<close>, every operation rounded; the clamp leaves it
  as it is; it is at least 0 and at most 1; it is positive only if one of the z-scores is not
  zero; it is exactly 0 whenever \<open>m / Z\<close> is at most the unit roundoff \<open>2 ^ -53\<close> (the sum
  \<open>1 + m / Z\<close> then rounds to 1), in particular when all z-scores are zero; and it is positive
  whenever \<open>m / Z\<close> is at least \<open>DBL_EPSILON = 2 ^ -52\<close>.
\<close>

theorem composite_score_range:
  assumes wf: "engine_wf eng" and bw: "burst_window eng \<noteq> 0"
    and bound: "unat (burst_window eng) \<le> 2 ^ 31"
    and Z: "z_threshold eng = Finite Z" and Zpos: "0 < Z"
  shows "\<exists>eng' res.
      anomaly_detect eng s = Inr (eng', res) \<and>
      (\<forall>a b c. z_cache_miss res = Finite a \<and> z_branch_miss res = Finite b \<and> z_ipc res = Finite c \<longrightarrow>
         composite_score res =
           double_sub (Finite 1) (double_div (Finite 1) (double_add (Finite 1)
             (double_div (Finite (max \<bar>a\<bar> (max \<bar>b\<bar> \<bar>c\<bar>))) (Finite Z)))) \<and>
         fp_le (Finite 0) (composite_score res) \<and> fp_le (composite_score res) (Finite 1) \<and>
         (fp_lt (Finite 0) (composite_score res) \<longrightarrow> a \<noteq> 0 \<or> b \<noteq> 0 \<or> c \<noteq> 0) \<and>
         (max \<bar>a\<bar> (max \<bar>b\<bar> \<bar>c\<bar>) / Z \<le> unit_roundoff \<longrightarrow> composite_score res = Finite 0) \<and>
         (DBL_EPSILON \<le> max \<bar>a\<bar> (max \<bar>b\<bar> \<bar>c\<bar>) / Z \<longrightarrow> fp_lt (Finite 0) (composite_score res)))"
proof (cases "ready (baseline eng)")
  case False
  have d: "anomaly_detect eng s = Inr (eng, zero_result)" by (rule anomaly_detect_idle[OF False])
  have "composite_score zero_result =
           double_sub (Finite 1) (double_div (Finite 1) (double_add (Finite 1)
             (double_div (Finite (max \<bar>a\<bar> (max \<bar>b\<bar> \<bar>c\<bar>))) (Finite Z))))"
    if "z_cache_miss zero_result = Finite a \<and> z_branch_miss zero_result = Finite b \<and>
        z_ipc zero_result = Finite c" for a b c :: real
  proof -
    have abc: "a = 0" "b = 0" "c = 0"
      using that by (simp_all add: zero_result_def zero_fpval_def)
    have "double_sub (Finite 1) (double_div (Finite 1) (double_add (Finite 1)
             (double_div (Finite 0) (Finite Z)))) = Finite 0"
      using composite_double(2)[of 0 Z] Zpos roundoff_pos by simp
    then show ?thesis unfolding abc by (simp add: zero_result_def zero_fpval_def)
  qed
  then show ?thesis using d composite_facts[OF Zpos] by blast
next
  case True
  from anomaly_detect_ready[OF wf bw bound True, of s] obtain eng' res where
    d: "anomaly_detect eng s = Inr (eng', res)" by blast
  note sc = anomaly_detect_Inr_scores[OF d True, THEN conjunct2, THEN conjunct2, THEN conjunct2]
  have "composite_score res =
           double_sub (Finite 1) (double_div (Finite 1) (double_add (Finite 1)
             (double_div (Finite (max \<bar>a\<bar> (max \<bar>b\<bar> \<bar>c\<bar>))) (Finite Z))))"
    if "z_cache_miss res = Finite a \<and> z_branch_miss res = Finite b \<and> z_ipc res = Finite c"
    for a b c :: real
  proof -
    have z: "z_cache_miss res = Finite a" "z_branch_miss res = Finite b" "z_ipc res = Finite c"
      using that by simp_all
    show ?thesis by (rule trans[OF sc[unfolded z Z] composite_clamped[OF Zpos]])
  qed
  then show ?thesis using d composite_facts[OF Zpos] by blast
qed

text \<open>
  The theorem at the threshold 3.5: with the z-scores 1, 0, 0 the quotient \<open>m / Z = 2 / 7\<close> is
  above \<open>DBL_EPSILON\<close> and the score is positive and at most 1; with the z-scores 0, 0, 0 the
  score is 0.
\<close>

theorem composite_score_range_witness:
  "engine_wf (detecting_engine 3 [Finite 0, Finite 0, Finite 0] 0 0) \<and>
   burst_window (detecting_engine 3 [Finite 0, Finite 0, Finite 0] 0 0) \<noteq> 0 \<and>
   unat (burst_window (detecting_engine 3 [Finite 0, Finite 0, Finite 0] 0 0)) \<le> 2 ^ 31 \<and>
   z_threshold (detecting_engine 3 [Finite 0, Finite 0, Finite 0] 0 0) = Finite (7 / 2) \<and>
   (\<exists>eng' res. anomaly_detect (detecting_engine 3 [Finite 0, Finite 0, Finite 0] 0 0)
         (ratio_sample 2 1 2) = Inr (eng', res) \<and>
      z_cache_miss res = Finite 1 \<and> z_branch_miss res = Finite 0 \<and> z_ipc res = Finite 0 \<and>
      DBL_EPSILON \<le> max \<bar>1\<bar> (max \<bar>0\<bar> \<bar>0\<bar>) / (7 / 2) \<and>
      fp_lt (Finite 0) (composite_score res) \<and> fp_le (composite_score res) (Finite 1)) \<and>
   (\<exists>eng' res. anomaly_detect (detecting_engine 3 [Finite 0, Finite 0, Finite 0] 0 0)
         (ratio_sample 1 1 2) = Inr (eng', res) \<and>
      z_cache_miss res = Finite 0 \<and> z_branch_miss res = Finite 0 \<and> z_ipc res = Finite 0 \<and>
      max \<bar>0\<bar> (max \<bar>0\<bar> \<bar>0\<bar>) / (7 / 2) \<le> unit_roundoff \<and>
      composite_score res = Finite 0)"
proof -
  define E where "E = detecting_engine 3 [Finite 0, Finite 0, Finite 0] 0 0"
  have h1: "engine_wf E" by (simp add: E_def engine_wf_def detecting_engine_def)
  have h2: "burst_window E \<noteq> 0" by (simp add: E_def detecting_engine_def)
  have h3: "unat (burst_window E) \<le> 2 ^ 31" by (simp add: E_def detecting_engine_def)
  have h4: "ready (baseline E)" by (simp add: E_def detecting_engine_def)
  have h7: "z_threshold E = Finite (7 / 2)" by (simp add: E_def detecting_engine_def)
  have h8: "(0::real) < 7 / 2" by simp
  have e1: "DBL_EPSILON \<le> max \<bar>1\<bar> (max \<bar>0\<bar> \<bar>0\<bar>) / (7 / 2)"
    by (simp add: DBL_EPSILON_def)
  have e2: "max \<bar>0\<bar> (max \<bar>0\<bar> \<bar>0\<bar>) / (7 / 2) \<le> unit_roundoff"
    by (simp add: unit_roundoff_def)
  from composite_score_range[OF h1 h2 h3 h7 h8, of "ratio_sample 2 1 2"] obtain eng1 res1 where
    d1: "anomaly_detect E (ratio_sample 2 1 2) = Inr (eng1, res1)"
    and a1: "\<And>a b c. z_cache_miss res1 = Finite a \<and> z_branch_miss res1 = Finite b \<and>
                z_ipc res1 = Finite c \<Longrightarrow>
         fp_le (composite_score res1) (Finite 1) \<and>
         (DBL_EPSILON \<le> max \<bar>a\<bar> (max \<bar>b\<bar> \<bar>c\<bar>) / (7 / 2) \<longrightarrow> fp_lt (Finite 0) (composite_score res1))"
    by blast
  have z1: "z_cache_miss res1 = Finite 1" "z_branch_miss res1 = Finite 0" "z_ipc res1 = Finite 0"
    using anomaly_detect_Inr_scores[OF d1 h4]
    by (simp_all add: E_def detecting_engine_def ratio_sample_def compute_z_def fp_sub_def)
  have c1: "fp_lt (Finite 0) (composite_score res1)" "fp_le (composite_score res1) (Finite 1)"
    using a1[of 1 0 0] z1 e1 by simp_all
  from composite_score_range[OF h1 h2 h3 h7 h8, of "ratio_sample 1 1 2"] obtain eng2 res2 where
    d2: "anomaly_detect E (ratio_sample 1 1 2) = Inr (eng2, res2)"
    and a2: "\<And>a b c. z_cache_miss res2 = Finite a \<and> z_branch_miss res2 = Finite b \<and>
                z_ipc res2 = Finite c \<Longrightarrow>
         (max \<bar>a\<bar> (max \<bar>b\<bar> \<bar>c\<bar>) / (7 / 2) \<le> unit_roundoff \<longrightarrow> composite_score res2 = Finite 0)"
    by blast
  have z2: "z_cache_miss res2 = Finite 0" "z_branch_miss res2 = Finite 0" "z_ipc res2 = Finite 0"
    using anomaly_detect_Inr_scores[OF d2 h4]
    by (simp_all add: E_def detecting_engine_def ratio_sample_def compute_z_def fp_sub_def)
  have c2: "composite_score res2 = Finite 0"
    using a2[of 0 0 0] z2 e2 by simp
  show ?thesis
    using h1 h2 h3 h7 d1 z1 e1 c1 d2 z2 e2 c2 unfolding E_def by blast
qed

text \<open>
  C3 as stated fails in three ways. With \<open>Z = -2\<close> and the z-scores 1, 0, 0 the formula gives
  \<open>1 - 1 / (1 - 1 / 2) = -1\<close>, clamped to 0: the score is 0 although a z-score is not. With
  \<open>Z = 0\<close> and all z-scores 0 the quotient \<open>0 / 0\<close> is NaN, neither comparison of the clamp
  holds of it, and the score is NaN, which is not in \<open>[0, 1]\<close>. With \<open>Z = 3.5\<close>, a baseline
  mean of \<open>1 + 2 ^ -52\<close> (the double next above 1), deviation 1 and the sample value 1, the
  z-score is \<open>-2 ^ -52\<close>, the sum \<open>1 + m / Z\<close> rounds to 1 and the score is exactly 0
  although a z-score is not.
\<close>

theorem composite_score_counterexample:
  "anomaly_detect ((detecting_engine 3 [Finite 0, Finite 0, Finite 0] 0 0)\<lparr>z_threshold := Finite (- 2)\<rparr>)
       (ratio_sample 2 1 2) =
     Inr ((detecting_engine 3 [Finite 2, Finite 0, Finite 0] 1 1)\<lparr>z_threshold := Finite (- 2)\<rparr>,
          \<lparr> z_cache_miss = Finite 1, z_branch_miss = Finite 0, z_ipc = Finite 0,
            composite_score = Finite 0, anomaly_flags = 7, sustained_count = 1 \<rparr>) \<and>
   anomaly_detect ((detecting_engine 3 [Finite 0, Finite 0, Finite 0] 0 0)\<lparr>z_threshold := Finite 0\<rparr>)
       (ratio_sample 1 1 2) =
     Inr ((detecting_engine 3 [Finite 1, Finite 0, Finite 0] 1 0)\<lparr>z_threshold := Finite 0\<rparr>,
          \<lparr> z_cache_miss = Finite 0, z_branch_miss = Finite 0, z_ipc = Finite 0,
            composite_score = NaN, anomaly_flags = 0, sustained_count = 0 \<rparr>) \<and>
   anomaly_detect
       ((detecting_engine 3 [Finite 0, Finite 0, Finite 0] 0 0)
          \<lparr>baseline := (baseline (detecting_engine 3 [Finite 0, Finite 0, Finite 0] 0 0))
                          \<lparr>mean_cache_miss_rate := Finite (1 + 1 / 2 ^ 52)\<rparr>\<rparr>)
       (ratio_sample 1 1 2) =
     Inr ((detecting_engine 3 [Finite 1, Finite 0, Finite 0] 1 0)
          \<lparr>baseline := (baseline (detecting_engine 3 [Finite 0, Finite 0, Finite 0] 0 0))
                          \<lparr>mean_cache_miss_rate := Finite (1 + 1 / 2 ^ 52)\<rparr>\<rparr>,
          \<lparr> z_cache_miss = Finite (- (1 / 2 ^ 52)), z_branch_miss = Finite 0, z_ipc = Finite 0,
            composite_score = Finite 0, anomaly_flags = 0, sustained_count = 0 \<rparr>)"
proof (intro conjI)
  show "anomaly_detect ((detecting_engine 3 [Finite 0, Finite 0, Finite 0] 0 0)\<lparr>z_threshold := Finite (- 2)\<rparr>)
       (ratio_sample 2 1 2) =
     Inr ((detecting_engine 3 [Finite 2, Finite 0, Finite 0] 1 1)\<lparr>z_threshold := Finite (- 2)\<rparr>,
          \<lparr> z_cache_miss = Finite 1, z_branch_miss = Finite 0, z_ipc = Finite 0,
            composite_score = Finite 0, anomaly_flags = 7, sustained_count = 1 \<rparr>)"
    by (simp add: anomaly_detect_def detecting_engine_def ratio_sample_def zero_sample_def
        compute_z_def fp_sub_def detect_oscillation_def Let_def
        ANOMALY_CACHE_MISS_SPIKE_def ANOMALY_BRANCH_MISS_SPIKE_def ANOMALY_IPC_COLLAPSE_def
        word_le_nat_alt double_div_finite double_add_finite double_sub_finite round64_points)
  show "anomaly_detect ((detecting_engine 3 [Finite 0, Finite 0, Finite 0] 0 0)\<lparr>z_threshold := Finite 0\<rparr>)
       (ratio_sample 1 1 2) =
     Inr ((detecting_engine 3 [Finite 1, Finite 0, Finite 0] 1 0)\<lparr>z_threshold := Finite 0\<rparr>,
          \<lparr> z_cache_miss = Finite 0, z_branch_miss = Finite 0, z_ipc = Finite 0,
            composite_score = NaN, anomaly_flags = 0, sustained_count = 0 \<rparr>)"
    by (simp add: anomaly_detect_def detecting_engine_def ratio_sample_def zero_sample_def
        compute_z_def fp_sub_def detect_oscillation_def Let_def
        double_div_def double_add_def double_sub_def)
  define B where "B = (baseline (detecting_engine 3 [Finite 0, Finite 0, Finite 0] 0 0))
                          \<lparr>mean_cache_miss_rate := Finite (1 + 1 / 2 ^ 52)\<rparr>"
  define E where "E = (detecting_engine 3 [Finite 0, Finite 0, Finite 0] 0 0)\<lparr>baseline := B\<rparr>"
  define E' where "E' = (detecting_engine 3 [Finite 1, Finite 0, Finite 0] 1 0)\<lparr>baseline := B\<rparr>"
  have rdy: "ready (baseline E)" by (simp add: E_def B_def detecting_engine_def)
  have Z: "z_threshold E = Finite (7 / 2)" by (simp add: E_def detecting_engine_def)
  have "\<exists>cs. anomaly_detect E (ratio_sample 1 1 2) =
      Inr (E', \<lparr> z_cache_miss = Finite (- (1 / 2 ^ 52)), z_branch_miss = Finite 0, z_ipc = Finite 0,
                 composite_score = cs, anomaly_flags = 0, sustained_count = 0 \<rparr>)"
    by (simp add: E_def E'_def B_def anomaly_detect_def detecting_engine_def ratio_sample_def
        zero_sample_def compute_z_def fp_sub_def detect_oscillation_def Let_def)
  then obtain cs where d: "anomaly_detect E (ratio_sample 1 1 2) =
      Inr (E', \<lparr> z_cache_miss = Finite (- (1 / 2 ^ 52)), z_branch_miss = Finite 0, z_ipc = Finite 0,
                 composite_score = cs, anomaly_flags = 0, sustained_count = 0 \<rparr>)" ..
  note sc = anomaly_detect_Inr_scores[OF d rdy, THEN conjunct2, THEN conjunct2, THEN conjunct2]
  have "cs = (let m = fp_abs (Finite (- (1 / 2 ^ 52)));
              m = (if fp_lt m (fp_abs (Finite 0)) then fp_abs (Finite 0) else m);
              m = (if fp_lt m (fp_abs (Finite 0)) then fp_abs (Finite 0) else m);
              c = double_sub (Finite 1)
                    (double_div (Finite 1) (double_add (Finite 1) (double_div m (Finite (7 / 2)))));
              c = (if fp_lt (Finite 1) c then Finite 1 else c)
          in if fp_lt c (Finite 0) then Finite 0 else c)"
    using sc[unfolded Z] by (simp only: anomaly_result.select_convs)
  also have "\<dots> = double_sub (Finite 1) (double_div (Finite 1) (double_add (Finite 1)
             (double_div (Finite (max \<bar>- (1 / 2 ^ 52)\<bar> (max \<bar>0\<bar> \<bar>0\<bar>))) (Finite (7 / 2)))))"
    by (rule composite_clamped) simp
  also have "\<dots> = Finite 0"
    by (rule composite_double(2)) (simp_all add: unit_roundoff_def)
  finally have "cs = Finite 0" .
  with d show "anomaly_detect
       ((detecting_engine 3 [Finite 0, Finite 0, Finite 0] 0 0)
          \<lparr>baseline := (baseline (detecting_engine 3 [Finite 0, Finite 0, Finite 0] 0 0))
                          \<lparr>mean_cache_miss_rate := Finite (1 + 1 / 2 ^ 52)\<rparr>\<rparr>)
       (ratio_sample 1 1 2) =
     Inr ((detecting_engine 3 [Finite 1, Finite 0, Finite 0] 1 0)
          \<lparr>baseline := (baseline (detecting_engine 3 [Finite 0, Finite 0, Finite 0] 0 0))
                          \<lparr>mean_cache_miss_rate := Finite (1 + 1 / 2 ^ 52)\<rparr>\<rparr>,
          \<lparr> z_cache_miss = Finite (- (1 / 2 ^ 52)), z_branch_miss = Finite 0, z_ipc = Finite 0,
            composite_score = Finite 0, anomaly_flags = 0, sustained_count = 0 \<rparr>)"
    unfolding E_def E'_def B_def by simp
qed


end
